theory Spec2Isabelle
  imports Main "HOL-Library.Word" "HOL-Library.Char_ord" "HOL-Library.List_Lexorder"
begin

unbundle bit_operations_syntax

section \<open>The property type system of libtiled (propertytype.cpp)\<close>

subsection \<open>Values\<close>

text \<open>
  The generic value container (QVariant), restricted to the kinds the interchange format
  holds: the invalid (null) variant, bool, int, string, list, string-keyed map, and the
  wrapped typed value \<open>PropertyValue { value, typeId }\<close>. A C++ \<open>int\<close> payload
  is a 32-bit word, read signed with \<open>sint\<close>. A type id is the integer that a C++
  \<open>int\<close> holds; ids are compared and copied, and the one place that counts one up,
  the counter \<open>nextId\<close>, wraps around as a 32-bit \<open>int\<close> does.
  A QMap is an association list in iteration order.
\<close>

datatype QVariant =
    VInvalid
  | VBool bool
  | VInt "32 word"
  | VString string
  | VList "QVariant list"
  | VMap "(string \<times> QVariant) list"
  | VPropertyValue QVariant int

type_synonym QVariantMap = "(string \<times> QVariant) list"

datatype MetaType =
  UnknownType | MT_Bool | MT_Int | MT_QString | MT_QVariantList | MT_QVariantMap | propertyValueId

fun userType :: "QVariant \<Rightarrow> MetaType" where
  "userType VInvalid = UnknownType"
| "userType (VBool _) = MT_Bool"
| "userType (VInt _) = MT_Int"
| "userType (VString _) = MT_QString"
| "userType (VList _) = MT_QVariantList"
| "userType (VMap _) = MT_QVariantMap"
| "userType (VPropertyValue _ _) = propertyValueId"

definition isValid :: "QVariant \<Rightarrow> bool" where
  "isValid v = (v \<noteq> VInvalid)"

text \<open>\<open>QMap::value(key)\<close>: the stored value, or a default-constructed (invalid) variant.\<close>

definition value_of :: "QVariantMap \<Rightarrow> string \<Rightarrow> QVariant" where
  "value_of m k = (case map_of m k of None \<Rightarrow> VInvalid | Some v \<Rightarrow> v)"

text \<open>\<open>QVariant::toMap()\<close>: the map held, or an empty map for any other kind.\<close>

fun toMap :: "QVariant \<Rightarrow> QVariantMap" where
  "toMap (VMap m) = m"
| "toMap _ = []"


text \<open>
  \<open>QVariant::toString()\<close>: a string is itself, an int is printed in decimal, a bool
  is "true" or "false"; every other kind gives the empty string.
\<close>

fun decimal :: "nat \<Rightarrow> string" where
  "decimal n =
     (if n < 10 then [''0123456789'' ! n]
      else decimal (n div 10) @ [''0123456789'' ! (n mod 10)])"

declare decimal.simps [simp del]

fun toString :: "QVariant \<Rightarrow> string" where
  "toString (VString s) = s"
| "toString (VInt w) =
     (if sint w < 0 then CHR ''-'' # decimal (nat (- sint w)) else decimal (nat (sint w)))"
| "toString (VBool b) = (if b then ''true'' else ''false'')"
| "toString _ = []"

text \<open>
  \<open>QVariant::toInt()\<close>: an int is itself, a bool is 0 or 1, a string is parsed by
  \<open>QString::toInt\<close>, which is Qt's and is taken as the parameter \<open>str2int\<close>;
  every other kind gives 0.
\<close>

fun toInt :: "(string \<Rightarrow> int) \<Rightarrow> QVariant \<Rightarrow> int" where
  "toInt str2int (VInt w) = sint w"
| "toInt str2int (VBool b) = (if b then 1 else 0)"
| "toInt str2int (VString s) = str2int s"
| "toInt str2int _ = 0"

definition toLower :: "char \<Rightarrow> char" where
  "toLower c =
     (let n = (of_char c :: nat) in if 65 \<le> n \<and> n \<le> 90 then char_of (n + 32) else c)"

text \<open>
  \<open>QVariant::toBool()\<close>: a string is false exactly when its lower-cased form is empty,
  "0" or "false".
\<close>

fun toBool :: "QVariant \<Rightarrow> bool" where
  "toBool (VBool b) = b"
| "toBool (VInt w) = (w \<noteq> 0)"
| "toBool (VString s) =
     (let str = map toLower s in \<not> (str = [] \<or> str = ''0'' \<or> str = ''false''))"
| "toBool _ = False"

fun toList :: "QVariant \<Rightarrow> QVariant list" where
  "toList (VList l) = l"
| "toList _ = []"

fun toStringList :: "QVariant \<Rightarrow> string list" where
  "toStringList (VList l) = map toString l"
| "toStringList (VString s) = [s]"
| "toStringList _ = []"

text \<open>
  \<open>QMap::insert(key, value)\<close>: replaces the value of a key that is present, and keeps
  the keys in ascending order otherwise.
\<close>

fun qmap_insert :: "string \<Rightarrow> QVariant \<Rightarrow> QVariantMap \<Rightarrow> QVariantMap" where
  "qmap_insert k v [] = [(k, v)]"
| "qmap_insert k v ((k', v') # m) =
     (if k < k' then (k, v) # (k', v') # m
      else if k = k' then (k, v) # m
      else (k', v') # qmap_insert k v m)"

subsection \<open>PropertyType: kinds and their names\<close>

datatype Type = PT_Invalid | PT_Class | PT_Enum

definition typeFromString :: "string \<Rightarrow> Type" where
  "typeFromString string =
     (if string = ''enum'' \<or> string = [] then PT_Enum
      else if string = ''class'' then PT_Class
      else PT_Invalid)"

fun typeToString :: "Type \<Rightarrow> string" where
  "typeToString PT_Class = ''class''"
| "typeToString PT_Enum = ''enum''"
| "typeToString PT_Invalid = ''invalid''"


subsection \<open>Property types\<close>

text \<open>
  The class hierarchy PropertyType / EnumPropertyType / ClassPropertyType as one datatype:
  the common fields \<open>id\<close> and \<open>name\<close> are in both constructors, and the constant
  field \<open>type\<close> is read off the constructor.
\<close>

datatype StorageType = StringValue | IntValue

datatype PropertyType =
    EnumPropertyType (id_pt: int) (name: string)
      (storageType: StorageType) (values_e: "string list") (valuesAsFlags: bool)
  | ClassPropertyType (id_pt: int) (name: string) (members: QVariantMap)

fun type_pt :: "PropertyType \<Rightarrow> Type" where
  "type_pt (EnumPropertyType _ _ _ _ _) = PT_Enum"
| "type_pt (ClassPropertyType _ _ _) = PT_Class"

record ExportValue =
  value_ev :: QVariant
  typeName :: string
  propertyTypeName :: string

text \<open>
  The registry \<open>PropertyTypes\<close> owns its types in the list \<open>mTypes\<close>. A pointer to
  an owned type is its position in that list.
\<close>

type_synonym PropertyTypes = "PropertyType list"

text \<open>\<open>std::find_if\<close>: the position of the first match, \<open>None\<close> for \<open>end()\<close>.\<close>

fun find_if :: "('a \<Rightarrow> bool) \<Rightarrow> 'a list \<Rightarrow> nat option" where
  "find_if P [] = None"
| "find_if P (x # xs) = (if P x then Some 0 else map_option Suc (find_if P xs))"

definition count :: "PropertyTypes \<Rightarrow> Type \<Rightarrow> nat" where
  "count mTypes t = length (filter (\<lambda>propertyType. type_pt propertyType = t) mTypes)"

definition findTypeById :: "PropertyTypes \<Rightarrow> int \<Rightarrow> nat option" where
  "findTypeById mTypes typeId = find_if (\<lambda>t. id_pt t = typeId) mTypes"

definition findTypeByName :: "PropertyTypes \<Rightarrow> string \<Rightarrow> nat option" where
  "findTypeByName mTypes n = find_if (\<lambda>t. name t = n) mTypes"

text \<open>
  The export context is the host's: its conversions are not part of propertytype.cpp and
  are parameters here. Each takes the registry the context refers to (\<open>context.types()\<close>)
  as its first argument.
\<close>

record ExportContext =
  ctx_toExportValue :: "PropertyTypes \<Rightarrow> QVariant \<Rightarrow> ExportValue"
  ctx_toPropertyValue :: "PropertyTypes \<Rightarrow> QVariant \<Rightarrow> MetaType \<Rightarrow> QVariant"
  ctx_toPropertyValue_ev :: "PropertyTypes \<Rightarrow> ExportValue \<Rightarrow> QVariant"

subsection \<open>PropertyType (base class)\<close>

definition wrap :: "PropertyType \<Rightarrow> QVariant \<Rightarrow> QVariant" where
  "wrap this v = VPropertyValue v (id_pt this)"

definition PropertyType_toExportValue ::
  "PropertyType \<Rightarrow> QVariant \<Rightarrow> ExportContext \<Rightarrow> PropertyTypes \<Rightarrow> ExportValue" where
  "PropertyType_toExportValue this v context mTypes =
     (ctx_toExportValue context mTypes v) \<lparr> propertyTypeName := name this \<rparr>"

definition PropertyType_toPropertyValue :: "PropertyType \<Rightarrow> QVariant \<Rightarrow> QVariant" where
  "PropertyType_toPropertyValue this v = wrap this v"

subsection \<open>EnumPropertyType\<close>

text \<open>
  \<open>1 << i\<close> on a 32-bit \<open>int\<close>. C++ defines the shift for \<open>i < 32\<close> only. A
  larger count is undefined behaviour; what the compiled shift does on the usual targets
  is to take the count modulo 32, and that is the value here. Only an enum with more than
  32 values reaches it, and the theorems on flags are stated for at most 32 values, where
  nothing depends on it.
\<close>

definition shl1 :: "nat \<Rightarrow> 32 word" where
  "shl1 i = push_bit (i mod 32) 1"

text \<open>
  The loop of toExportValue over the bit positions \<open>i = 0 ..< values.size()\<close>, with the
  test \<open>intValue & (1 << i)\<close>.
\<close>

function export_flags :: "string list \<Rightarrow> 32 word \<Rightarrow> nat \<Rightarrow> string \<Rightarrow> string" where
  "export_flags vs intValue i stringValue =
     (if i < length vs then
        export_flags vs intValue (Suc i)
          (if intValue AND shl1 i \<noteq> 0 then
             (if stringValue \<noteq> [] then stringValue @ '','' else stringValue) @ vs ! i
           else stringValue)
      else stringValue)"
  by pat_completeness auto
termination
  by (relation "measure (\<lambda>(vs, intValue, i, stringValue). length vs - i)") auto

declare export_flags.simps [simp del]

definition EnumPropertyType_toExportValue ::
  "PropertyType \<Rightarrow> QVariant \<Rightarrow> ExportContext \<Rightarrow> PropertyTypes \<Rightarrow> ExportValue" where
  "EnumPropertyType_toExportValue this v context mTypes =
     (case v of
        VInt intValue \<Rightarrow>
          if storageType this = StringValue then
            if valuesAsFlags this then
              PropertyType_toExportValue this
                (VString (export_flags (values_e this) intValue 0 [])) context mTypes
            else if 0 \<le> sint intValue \<and> sint intValue < int (length (values_e this)) then
              PropertyType_toExportValue this
                (VString (values_e this ! nat (sint intValue))) context mTypes
            else PropertyType_toExportValue this v context mTypes
          else PropertyType_toExportValue this v context mTypes
      | _ \<Rightarrow> PropertyType_toExportValue this v context mTypes)"

text \<open>
  \<open>QString::split(sep, Qt::SkipEmptyParts)\<close>: the maximal runs of characters other
  than the separator, the empty ones left out.
\<close>

fun split_keep :: "char \<Rightarrow> string \<Rightarrow> string list" where
  "split_keep sep [] = [[]]"
| "split_keep sep (c # cs) =
     (if c = sep then [] # split_keep sep cs
      else (case split_keep sep cs of
              [] \<Rightarrow> [[c]]
            | part # parts \<Rightarrow> (c # part) # parts))"

definition split_skipEmpty :: "char \<Rightarrow> string \<Rightarrow> string list" where
  "split_skipEmpty sep s = filter (\<lambda>part. part \<noteq> []) (split_keep sep s)"

text \<open>
  \<open>QStringList::indexOf\<close>: the index of the first element equal to the string, or -1.

  Modelled from the spec: the helper \<open>indexOf(container, value)\<close> of containerhelpers.h,
  which the flags loop calls, is not part of propertytype.cpp; the spec says the loop looks
  up each segment's index in \<open>values\<close>, and the loop tests the result against -1. It is
  the same function here.
\<close>

fun indexOf :: "string list \<Rightarrow> string \<Rightarrow> int" where
  "indexOf [] s = - 1"
| "indexOf (v # vs) s =
     (if v = s then 0 else (let r = indexOf vs s in if r = - 1 then - 1 else r + 1))"

text \<open>
  The loop of toPropertyValue over the segments of a flags string; \<open>None\<close> is the early
  return at an unrecognized name.
\<close>

fun import_flags :: "string list \<Rightarrow> string list \<Rightarrow> 32 word \<Rightarrow> 32 word option" where
  "import_flags vs [] flags = Some flags"
| "import_flags vs (stringValue # stringValues) flags =
     (let index = indexOf vs stringValue in
      if index = - 1 then None
      else import_flags vs stringValues (flags OR shl1 (nat index)))"

definition EnumPropertyType_toPropertyValue :: "PropertyType \<Rightarrow> QVariant \<Rightarrow> QVariant" where
  "EnumPropertyType_toPropertyValue this v =
     (case v of
        VString stringValue \<Rightarrow>
          if valuesAsFlags this then
            (case import_flags (values_e this) (split_skipEmpty CHR '','' stringValue) 0 of
               None \<Rightarrow> wrap this v
             | Some flags \<Rightarrow> wrap this (VInt flags))
          else
            (let index = indexOf (values_e this) stringValue in
             if index \<noteq> - 1 then wrap this (VInt (word_of_int index)) else wrap this v)
      | _ \<Rightarrow> wrap this v)"

definition EnumPropertyType_defaultValue :: QVariant where
  "EnumPropertyType_defaultValue = VInt 0"

fun storageTypeFromString :: "string \<Rightarrow> StorageType" where
  "storageTypeFromString string = (if string = ''int'' then IntValue else StringValue)"

text \<open>\<open>QMap::value(key, defaultValue)\<close>.\<close>

definition value_or :: "QVariantMap \<Rightarrow> string \<Rightarrow> QVariant \<Rightarrow> QVariant" where
  "value_or m k d = (case map_of m k of None \<Rightarrow> d | Some v \<Rightarrow> v)"

definition EnumPropertyType_fromVariant :: "PropertyType \<Rightarrow> QVariantMap \<Rightarrow> PropertyType" where
  "EnumPropertyType_fromVariant this variant =
     EnumPropertyType (id_pt this) (name this)
       (storageTypeFromString (toString (value_of variant ''storageType'')))
       (toStringList (value_of variant ''values''))
       (toBool (value_or variant ''valuesAsFlags'' (VBool False)))"

subsection \<open>ClassPropertyType\<close>

text \<open>
  \<open>classMember.value<PropertyValue>().typeId\<close>. The source reads it from a wrapped
  value only; for a variant of another kind it is that of a default-constructed
  PropertyValue.
\<close>

fun typeId :: "QVariant \<Rightarrow> int" where
  "typeId (VPropertyValue _ t) = t"
| "typeId _ = 0"

text \<open>
  The loop of ClassPropertyType::toPropertyValue over the entries of \<open>properties\<close>, which
  it updates in place through the iterator. \<open>nested\<close> is the virtual call
  \<open>propertyType->toPropertyValue(propertyValue, context)\<close> on the member's own type;
  it gives \<open>None\<close> when it does not return.
\<close>

fun toPropertyValue_loop ::
  "(PropertyType \<Rightarrow> QVariant \<Rightarrow> QVariant option) \<Rightarrow> ExportContext \<Rightarrow> PropertyTypes
     \<Rightarrow> QVariantMap \<Rightarrow> QVariantMap \<Rightarrow> QVariantMap option" where
  "toPropertyValue_loop nested context mTypes mems [] = Some []"
| "toPropertyValue_loop nested context mTypes mems ((key, v) # properties) =
     (let classMember = value_of mems key in
      if \<not> isValid classMember then
        map_option ((#) (key, v)) (toPropertyValue_loop nested context mTypes mems properties)
      else
        (let propertyValue = ctx_toPropertyValue context mTypes v (userType classMember) in
         case (if userType classMember = propertyValueId then
                 (case findTypeById mTypes (typeId classMember) of
                    Some propertyType \<Rightarrow> nested (mTypes ! propertyType) propertyValue
                  | None \<Rightarrow> Some propertyValue)
               else Some propertyValue) of
           None \<Rightarrow> None
         | Some propertyValue' \<Rightarrow>
             map_option ((#) (key, propertyValue'))
               (toPropertyValue_loop nested context mTypes mems properties)))"

definition ClassPropertyType_toPropertyValue ::
  "(PropertyType \<Rightarrow> QVariant \<Rightarrow> QVariant option) \<Rightarrow> PropertyType \<Rightarrow> QVariant
     \<Rightarrow> ExportContext \<Rightarrow> PropertyTypes \<Rightarrow> QVariant option" where
  "ClassPropertyType_toPropertyValue nested this v context mTypes =
     map_option (\<lambda>properties. wrap this (VMap properties))
       (toPropertyValue_loop nested context mTypes (members this) (toMap v))"

text \<open>
  The virtual \<open>toPropertyValue\<close>. A class value may hold class values, to any depth, and
  the host's conversion stands between one level and the next, so the nesting the call
  follows is bounded by a fuel: \<open>toPropertyValue n\<close> follows at most \<open>n\<close> nested
  levels below the value it is given, and is \<open>None\<close> if the value goes deeper.
\<close>

definition toPropertyValue_virtual ::
  "(PropertyType \<Rightarrow> QVariant \<Rightarrow> QVariant option) \<Rightarrow> PropertyType \<Rightarrow> QVariant
     \<Rightarrow> ExportContext \<Rightarrow> PropertyTypes \<Rightarrow> QVariant option" where
  "toPropertyValue_virtual nested this v context mTypes =
     (case type_pt this of
        PT_Class \<Rightarrow> ClassPropertyType_toPropertyValue nested this v context mTypes
      | _ \<Rightarrow> Some (EnumPropertyType_toPropertyValue this v))"

primrec toPropertyValue ::
  "nat \<Rightarrow> PropertyType \<Rightarrow> QVariant \<Rightarrow> ExportContext \<Rightarrow> PropertyTypes \<Rightarrow> QVariant option" where
  "toPropertyValue 0 this v context mTypes =
     toPropertyValue_virtual (\<lambda>_ _. None) this v context mTypes"
| "toPropertyValue (Suc n) this v context mTypes =
     toPropertyValue_virtual (\<lambda>propertyType propertyValue.
        toPropertyValue n propertyType propertyValue context mTypes) this v context mTypes"

definition ClassPropertyType_defaultValue :: QVariant where
  "ClassPropertyType_defaultValue = VMap []"

definition ClassPropertyType_fromVariant :: "PropertyType \<Rightarrow> QVariantMap \<Rightarrow> PropertyType" where
  "ClassPropertyType_fromVariant this variant =
     ClassPropertyType (id_pt this) (name this)
       (fold (\<lambda>member mems.
                let m = toMap member; n = toString (value_of m ''name'')
                in qmap_insert n (VMap m) mems)
          (toList (value_of variant ''members'')) (members this))"

definition fromVariant :: "PropertyType \<Rightarrow> QVariantMap \<Rightarrow> PropertyType" where
  "fromVariant this variant =
     (case type_pt this of
        PT_Class \<Rightarrow> ClassPropertyType_fromVariant this variant
      | _ \<Rightarrow> EnumPropertyType_fromVariant this variant)"

text \<open>
  resolveDependencies works on the type at position \<open>this\<close> of the registry, which the
  context refers to: each member is replaced in place, so the host's conversion of the
  next member sees the registry with the members before it resolved.
\<close>

definition member_exportValue :: "QVariant \<Rightarrow> ExportValue" where
  "member_exportValue member =
     (let m = toMap member
      in \<lparr> value_ev = value_of m ''value'',
           typeName = toString (value_of m ''type''),
           propertyTypeName = toString (value_of m ''propertyType'') \<rparr>)"

definition resolveMember :: "ExportContext \<Rightarrow> nat \<Rightarrow> nat \<Rightarrow> PropertyTypes \<Rightarrow> PropertyTypes" where
  "resolveMember context this j mTypes =
     (let mems = members (mTypes ! this);
          exportValue = member_exportValue (snd (mems ! j));
          member = ctx_toPropertyValue_ev context mTypes exportValue
      in mTypes[this := ClassPropertyType (id_pt (mTypes ! this)) (name (mTypes ! this))
                          (mems[j := (fst (mems ! j), member)])])"

definition resolveDependencies :: "ExportContext \<Rightarrow> PropertyTypes \<Rightarrow> nat \<Rightarrow> PropertyTypes" where
  "resolveDependencies context mTypes this =
     (case type_pt (mTypes ! this) of
        PT_Class \<Rightarrow>
          fold (resolveMember context this) [0 ..< length (members (mTypes ! this))] mTypes
      | _ \<Rightarrow> mTypes)"

text \<open>
  Modelled from the spec: \<open>PropertyValue::type()\<close> is not part of propertytype.cpp; the
  spec says a member "wrapped with some nested PropertyType" is followed to that type, and
  a wrapped value names its type by id, so it is the registry's lookup by id.
\<close>

definition PropertyValue_type :: "PropertyTypes \<Rightarrow> QVariant \<Rightarrow> nat option" where
  "PropertyValue_type mTypes member = findTypeById mTypes (typeId member)"

text \<open>
  The loop of canAddMemberOfType over the members of the candidate class;
  \<open>recurse\<close> is the recursive call.
\<close>

fun canAdd_loop :: "(nat \<Rightarrow> bool option) \<Rightarrow> PropertyTypes \<Rightarrow> QVariant list \<Rightarrow> bool option" where
  "canAdd_loop recurse mTypes [] = Some True"
| "canAdd_loop recurse mTypes (member # ms) =
     (if userType member \<noteq> propertyValueId then canAdd_loop recurse mTypes ms
      else
        (case PropertyValue_type mTypes member of
           None \<Rightarrow> canAdd_loop recurse mTypes ms
         | Some propertyType \<Rightarrow>
             (case recurse propertyType of
                None \<Rightarrow> None
              | Some ok \<Rightarrow> if \<not> ok then Some False else canAdd_loop recurse mTypes ms)))"

definition canAdd_body ::
  "(nat \<Rightarrow> bool option) \<Rightarrow> PropertyTypes \<Rightarrow> nat \<Rightarrow> nat \<Rightarrow> bool option" where
  "canAdd_body recurse mTypes this propertyType =
     (if propertyType = this then Some False
      else if \<not> propertyType < length mTypes then None
      else if type_pt (mTypes ! propertyType) \<noteq> PT_Class then Some True
      else canAdd_loop recurse mTypes (map snd (members (mTypes ! propertyType))))"

text \<open>
  \<open>canAddMemberOfType n mTypes this propertyType\<close>: the class at position \<open>this\<close> is
  asked about the type at position \<open>propertyType\<close>. The recursion has no bound of its
  own in the source; \<open>n\<close> bounds its depth, and the result is \<open>None\<close> when the
  recursion goes deeper, or when the pointer is to no owned type.
\<close>

primrec canAddMemberOfType :: "nat \<Rightarrow> PropertyTypes \<Rightarrow> nat \<Rightarrow> nat \<Rightarrow> bool option" where
  "canAddMemberOfType 0 mTypes this propertyType =
     canAdd_body (\<lambda>_. None) mTypes this propertyType"
| "canAddMemberOfType (Suc n) mTypes this propertyType =
     canAdd_body (canAddMemberOfType n mTypes this) mTypes this propertyType"

subsection \<open>The factory and the registry\<close>

text \<open>
  The counter \<open>int PropertyType::nextId\<close> is a 32-bit \<open>int\<close>. \<open>increment\<close> is
  \<open>++nextId\<close> with the wrap-around written out: one more, and the least int after the
  greatest.
\<close>

definition increment :: "int \<Rightarrow> int" where
  "increment n = (n + 1 + 2147483648) mod 4294967296 - 2147483648"

text \<open>
  Modelled from the spec: the constructors are declared in propertytype.h, not in
  propertytype.cpp; the spec says a constructed type is assigned the next unused
  identifier from the process-wide counter \<open>nextId\<close>, which holds the largest id assigned
  so far. A new enum stores strings, has no values and is not a flags enum; a new class has
  no members.
\<close>

definition new_EnumPropertyType :: "string \<Rightarrow> int \<Rightarrow> PropertyType \<times> int" where
  "new_EnumPropertyType n nextId =
     (EnumPropertyType (increment nextId) n StringValue [] False, increment nextId)"

definition new_ClassPropertyType :: "string \<Rightarrow> int \<Rightarrow> PropertyType \<times> int" where
  "new_ClassPropertyType n nextId =
     (ClassPropertyType (increment nextId) n [], increment nextId)"

fun set_id :: "PropertyType \<Rightarrow> int \<Rightarrow> PropertyType" where
  "set_id (EnumPropertyType _ n st vs fl) i = EnumPropertyType i n st vs fl"
| "set_id (ClassPropertyType _ n ms) i = ClassPropertyType i n ms"

text \<open>
  createFromVariant takes the counter \<open>nextId\<close> and returns it with the new type, or
  with \<open>None\<close> for the null pointer.
\<close>

definition createFromVariant ::
  "(string \<Rightarrow> int) \<Rightarrow> QVariantMap \<Rightarrow> int \<Rightarrow> PropertyType option \<times> int" where
  "createFromVariant str2int variant nextId =
     (let i = toInt str2int (value_of variant ''id'');
          n = toString (value_of variant ''name'');
          t = typeFromString (toString (value_of variant ''type''));
          (propertyType, nextId1) =
            (case t of
               PT_Invalid \<Rightarrow> (None, nextId)
             | PT_Class \<Rightarrow> (let (c, k) = new_ClassPropertyType n nextId in (Some c, k))
             | PT_Enum \<Rightarrow> (let (e, k) = new_EnumPropertyType n nextId in (Some e, k)))
      in case propertyType of
           Some pt \<Rightarrow> (Some (fromVariant (set_id pt i) variant), max nextId1 i)
         | None \<Rightarrow> (None, nextId1))"

text \<open>
  Modelled from the spec: \<open>add\<close> and \<open>clear\<close> are declared in propertytype.h, not in
  propertytype.cpp; the spec says the registry owns a sequence of types in insertion order
  and that clearing destroys them all.
\<close>

definition add :: "PropertyTypes \<Rightarrow> PropertyType \<Rightarrow> PropertyTypes" where
  "add mTypes propertyType = mTypes @ [propertyType]"

definition clear :: "PropertyTypes \<Rightarrow> PropertyTypes" where
  "clear mTypes = []"

text \<open>
  The first loop of loadFrom: the state is the registry and the counter.
\<close>

definition load_step ::
  "(string \<Rightarrow> int) \<Rightarrow> QVariant \<Rightarrow> PropertyTypes \<times> int \<Rightarrow> PropertyTypes \<times> int" where
  "load_step str2int typeValue s =
     (case createFromVariant str2int (toMap typeValue) (snd s) of
        (Some propertyType, nextId') \<Rightarrow> (add (fst s) propertyType, nextId')
      | (None, nextId') \<Rightarrow> (fst s, nextId'))"

text \<open>
  loadFrom. The context is constructed from the registry and the path; \<open>new_context\<close>
  is the host's constructor at this registry, and the registry it reads is passed at each
  call, as it is then.
\<close>

definition loadFrom ::
  "(string \<Rightarrow> ExportContext) \<Rightarrow> (string \<Rightarrow> int) \<Rightarrow> QVariant list \<Rightarrow> string
     \<Rightarrow> PropertyTypes \<times> int \<Rightarrow> PropertyTypes \<times> int" where
  "loadFrom new_context str2int list path s =
     (let context = new_context path;
          s1 = fold (load_step str2int) list (clear (fst s), snd s);
          mTypes2 = fold (\<lambda>propertyType mTypes. resolveDependencies context mTypes propertyType)
                      [0 ..< length (fst s1)] (fst s1)
      in (mTypes2, snd s1))"

text \<open>
  The spec's comma-joined string of a list of names, for stating what toExportValue builds.
\<close>

fun comma_joined :: "string list \<Rightarrow> string" where
  "comma_joined [] = []"
| "comma_joined [x] = x"
| "comma_joined (x # y # r) = x @ '','' @ comma_joined (y # r)"

text \<open>
  How deep maps are nested in a value: a measure for the nesting that toPropertyValue
  follows, used to state how much fuel is enough.
\<close>

fun map_depth :: "QVariant \<Rightarrow> nat" where
  "map_depth (VMap m) = Suc (foldr max (map (\<lambda>kv. map_depth (snd kv)) m) 0)"
| "map_depth _ = 0"

text \<open>
  The fields of the base class, which the registry's lookups and \<open>count\<close> read.
\<close>

definition base_fields :: "PropertyType \<Rightarrow> int \<times> string \<times> Type" where
  "base_fields t = (id_pt t, name t, type_pt t)"

text \<open>What createFromVariant reads from a record of the list: id, name and kind.\<close>

definition record_fields :: "(string \<Rightarrow> int) \<Rightarrow> QVariant \<Rightarrow> int \<times> string \<times> Type" where
  "record_fields str2int typeValue =
     (toInt str2int (value_of (toMap typeValue) ''id''),
      toString (value_of (toMap typeValue) ''name''),
      typeFromString (toString (value_of (toMap typeValue) ''type'')))"

text \<open>
  \<open>resolved_against context parsed raw pt\<close>: the type \<open>pt\<close> is the parsed type
  \<open>raw\<close> after resolveDependencies, every member of a class being what the host's
  toPropertyValue made of the member's raw record at a registry that owns types with the
  ids, names and kinds of all of \<open>parsed\<close>; a type of another kind is left as it was.
\<close>

definition resolved_against ::
  "ExportContext \<Rightarrow> PropertyTypes \<Rightarrow> PropertyType \<Rightarrow> PropertyType \<Rightarrow> bool" where
  "resolved_against context parsed raw pt \<longleftrightarrow>
     base_fields pt = base_fields raw
     \<and> (type_pt raw \<noteq> PT_Class \<longrightarrow> pt = raw)
     \<and> (type_pt raw = PT_Class \<longrightarrow>
          map fst (members pt) = map fst (members raw)
          \<and> (\<forall>j < length (members raw). \<exists>mTypes.
                map base_fields mTypes = map base_fields parsed
                \<and> snd (members pt ! j)
                    = ctx_toPropertyValue_ev context mTypes (member_exportValue (snd (members raw ! j)))))"

text \<open>
  \<open>has_member_of mTypes b a\<close>: the type at position \<open>b\<close> is a class with a member
  whose value is wrapped with the type at position \<open>a\<close>.
\<close>

definition has_member_of :: "PropertyTypes \<Rightarrow> nat \<Rightarrow> nat \<Rightarrow> bool" where
  "has_member_of mTypes b a \<longleftrightarrow>
     b < length mTypes \<and> type_pt (mTypes ! b) = PT_Class
     \<and> (\<exists>member \<in> set (map snd (members (mTypes ! b))).
           userType member = propertyValueId \<and> PropertyValue_type mTypes member = Some a)"

subsection \<open>Hosts for the examples\<close>

text \<open>
  The examples below need a host. The first passes every value through unchanged and
  knows no type names. The second, for loading, wraps a member's value in the type that
  the registry holds under the member's propertyTypeName.
\<close>

definition example_context :: ExportContext where
  "example_context =
     \<lparr> ctx_toExportValue = (\<lambda>mTypes v. \<lparr> value_ev = v, typeName = [], propertyTypeName = [] \<rparr>),
       ctx_toPropertyValue = (\<lambda>mTypes v metaType. v),
       ctx_toPropertyValue_ev = (\<lambda>mTypes exportValue. value_ev exportValue) \<rparr>"

definition lookup_context :: "string \<Rightarrow> ExportContext" where
  "lookup_context path =
     \<lparr> ctx_toExportValue = (\<lambda>mTypes v. \<lparr> value_ev = v, typeName = [], propertyTypeName = [] \<rparr>),
       ctx_toPropertyValue = (\<lambda>mTypes v metaType. v),
       ctx_toPropertyValue_ev = (\<lambda>mTypes exportValue.
          case findTypeByName mTypes (propertyTypeName exportValue) of
            None \<Rightarrow> value_ev exportValue
          | Some propertyType \<Rightarrow> wrap (mTypes ! propertyType) (value_ev exportValue)) \<rparr>"

text \<open>
  Two inputs for the examples: the 33 names v0 to v32, one more than an \<open>int\<close> has
  bits; and a registry of four classes, T with no members, A with members c of type C and
  t of type T, C with a member a of type A, and B with a member a of type A, so that A and
  C contain each other.
\<close>

definition names33 :: "string list" where
  "names33 =
      [''v0'', ''v1'', ''v2'', ''v3'', ''v4'', ''v5'', ''v6'', ''v7'', ''v8'',
       ''v9'', ''v10'', ''v11'', ''v12'', ''v13'', ''v14'', ''v15'', ''v16'',
       ''v17'', ''v18'', ''v19'', ''v20'', ''v21'', ''v22'', ''v23'', ''v24'',
       ''v25'', ''v26'', ''v27'', ''v28'', ''v29'', ''v30'', ''v31'', ''v32'']"

definition cyclic_types :: PropertyTypes where
  "cyclic_types =
     [ClassPropertyType 1 ''T'' [],
      ClassPropertyType 2 ''A'' [(''c'', VPropertyValue (VMap []) 3), (''t'', VPropertyValue (VMap []) 1)],
      ClassPropertyType 3 ''C'' [(''a'', VPropertyValue (VMap []) 2)],
      ClassPropertyType 4 ''B'' [(''a'', VPropertyValue (VMap []) 2)]]"

section \<open>Theorems\<close>

subsection \<open>Kinds and their names\<close>

text \<open>
  C9. typeFromString maps "class" to Class, "enum" and the empty string to Enum, and any
  other string to Invalid; typeToString maps Class, Enum and Invalid to "class", "enum" and
  "invalid", never to the empty string; reading back what typeToString writes gives the
  kind again.
\<close>

theorem typeFromString_typeToString:
  "typeFromString ''class'' = PT_Class
   \<and> typeFromString ''enum'' = PT_Enum
   \<and> typeFromString [] = PT_Enum
   \<and> (\<forall>s. s \<noteq> ''class'' \<and> s \<noteq> ''enum'' \<and> s \<noteq> [] \<longrightarrow> typeFromString s = PT_Invalid)
   \<and> typeToString PT_Class = ''class''
   \<and> typeToString PT_Enum = ''enum''
   \<and> typeToString PT_Invalid = ''invalid''
   \<and> (\<forall>t. typeToString t \<noteq> [])
   \<and> (\<forall>t. typeFromString (typeToString t) = t)
   \<and> (\<forall>s. typeToString (typeFromString s) = s \<longleftrightarrow> s \<in> {''class'', ''enum'', ''invalid''})"
proof -
  have a: "\<forall>t. typeToString t \<noteq> []"
  proof
    fix t show "typeToString t \<noteq> []" by (cases t) simp_all
  qed
  have b: "\<forall>t. typeFromString (typeToString t) = t"
  proof
    fix t show "typeFromString (typeToString t) = t"
      by (cases t) (simp_all add: typeFromString_def)
  qed
  have c: "\<forall>s. typeToString (typeFromString s) = s \<longleftrightarrow> s \<in> {''class'', ''enum'', ''invalid''}"
    by (auto simp: typeFromString_def)
  show ?thesis using a b c by (simp add: typeFromString_def)
qed

theorem typeFromString_typeToString_witness:
  "''tileset'' \<noteq> ''class'' \<and> ''tileset'' \<noteq> ''enum'' \<and> ''tileset'' \<noteq> []
   \<and> typeFromString ''tileset'' = PT_Invalid"
  using typeFromString_typeToString by simp

subsection \<open>Enum values\<close>

lemma indexOf_ge: "- 1 \<le> indexOf vs s"
  by (induction vs) (auto simp: Let_def)

lemma indexOf_notin: "indexOf vs s = - 1 \<longleftrightarrow> s \<notin> set vs"
proof (induction vs)
  case Nil show ?case by simp
next
  case (Cons v vs)
  have "- 1 \<le> indexOf vs s" by (rule indexOf_ge)
  then show ?case using Cons by (auto simp: Let_def)
qed

lemma indexOf_in:
  "s \<in> set vs \<Longrightarrow> 0 \<le> indexOf vs s \<and> nat (indexOf vs s) < length vs \<and> vs ! nat (indexOf vs s) = s"
proof (induction vs)
  case Nil then show ?case by simp
next
  case (Cons v vs)
  show ?case
  proof (cases "v = s")
    case True then show ?thesis by simp
  next
    case False
    with Cons.prems have in_vs: "s \<in> set vs" by simp
    then have ne: "indexOf vs s \<noteq> - 1" by (simp add: indexOf_notin)
    from Cons.IH [OF in_vs] False ne show ?thesis
      by (simp add: Let_def nat_add_distrib)
  qed
qed

lemma indexOf_first:
  "i < length vs \<Longrightarrow> (\<forall>j<i. vs ! j \<noteq> vs ! i) \<Longrightarrow> indexOf vs (vs ! i) = int i"
proof (induction vs arbitrary: i)
  case Nil then show ?case by simp
next
  case (Cons v vs)
  show ?case
  proof (cases i)
    case 0 then show ?thesis by simp
  next
    case (Suc k)
    from Cons.prems Suc have k: "k < length vs" by simp
    from Cons.prems(2) Suc have v: "v \<noteq> vs ! k" by (metis nth_Cons_0 nth_Cons_Suc zero_less_Suc)
    from Cons.prems(2) Suc have "\<forall>j<k. vs ! j \<noteq> vs ! k"
      by (metis Suc_less_eq nth_Cons_Suc)
    from Cons.IH [OF k this] have "indexOf vs (vs ! k) = int k" .
    with v Suc show ?thesis by (simp add: Let_def)
  qed
qed

lemma import_flags_eq:
  "import_flags vs segs acc =
     (if \<exists>seg\<in>set segs. seg \<notin> set vs then None
      else Some (acc OR foldr (\<lambda>seg w. shl1 (nat (indexOf vs seg)) OR w) segs 0))"
proof (induction segs arbitrary: acc)
  case Nil show ?case by simp
next
  case (Cons seg segs)
  show ?case
    by (simp add: Cons.IH Let_def indexOf_notin or.assoc)
qed

lemma shl1_small: "i < 32 \<Longrightarrow> shl1 i = push_bit i 1"
  by (simp add: shl1_def)

lemma foldr_shl1:
  assumes "length vs \<le> 32" and "\<forall>seg\<in>set segs. seg \<in> set vs"
  shows "foldr (\<lambda>seg w. shl1 (nat (indexOf vs seg)) OR w) segs 0
         = foldr (\<lambda>seg w. push_bit (nat (indexOf vs seg)) 1 OR w) segs 0"
  using assms(2)
proof (induction segs)
  case Nil show ?case by simp
next
  case (Cons seg segs)
  then have "seg \<in> set vs" by simp
  then have "nat (indexOf vs seg) < length vs" by (simp add: indexOf_in)
  with assms(1) have "shl1 (nat (indexOf vs seg)) = push_bit (nat (indexOf vs seg)) 1"
    by (intro shl1_small) simp
  with Cons show ?case by (simp del: push_bit_of_1)
qed

text \<open>
  C2 fails for an enum with more than 32 values: an \<open>int\<close> has no bit 32, and of the
  33 names v0 to v32 the last, at index 32, is read back as the flag of index 0, the same
  value that v0 gives.
\<close>

theorem flags_toPropertyValue_counterexample:
  "valuesAsFlags (EnumPropertyType 3 ''E'' StringValue names33 True)
   \<and> length (values_e (EnumPropertyType 3 ''E'' StringValue names33 True)) = 33
   \<and> indexOf (values_e (EnumPropertyType 3 ''E'' StringValue names33 True)) ''v32'' = 32
   \<and> EnumPropertyType_toPropertyValue (EnumPropertyType 3 ''E'' StringValue names33 True)
        (VString ''v32'') = VPropertyValue (VInt 1) 3
   \<and> EnumPropertyType_toPropertyValue (EnumPropertyType 3 ''E'' StringValue names33 True)
        (VString ''v0'') = VPropertyValue (VInt 1) 3"
  by code_simp

text \<open>
  C2, amended. For a flags enum with at most 32 values and a string input, toPropertyValue
  splits the string on commas, leaving out empty segments, and looks each segment up in
  \<open>values\<close>: if a segment is not found the original string is wrapped unchanged,
  otherwise the OR-combination of \<open>1 << index\<close> over the segments is wrapped.
\<close>

theorem flags_toPropertyValue:
  assumes "valuesAsFlags e" and "length (values_e e) \<le> 32"
  shows "EnumPropertyType_toPropertyValue e (VString s) =
     (if \<exists>seg \<in> set (split_skipEmpty CHR '','' s). seg \<notin> set (values_e e)
      then wrap e (VString s)
      else wrap e (VInt (foldr (\<lambda>seg w. push_bit (nat (indexOf (values_e e) seg)) 1 OR w)
                           (split_skipEmpty CHR '','' s) 0)))"
proof (cases "\<exists>seg \<in> set (split_skipEmpty CHR '','' s). seg \<notin> set (values_e e)")
  case True
  with assms(1) show ?thesis
    by (simp add: EnumPropertyType_toPropertyValue_def import_flags_eq)
next
  case False
  then have "\<forall>seg \<in> set (split_skipEmpty CHR '','' s). seg \<in> set (values_e e)" by simp
  with assms(2) have
    "foldr (\<lambda>seg w. shl1 (nat (indexOf (values_e e) seg)) OR w) (split_skipEmpty CHR '','' s) 0
     = foldr (\<lambda>seg w. push_bit (nat (indexOf (values_e e) seg)) 1 OR w) (split_skipEmpty CHR '','' s) 0"
    by (rule foldr_shl1)
  with assms(1) False show ?thesis
    by (simp add: EnumPropertyType_toPropertyValue_def import_flags_eq del: push_bit_of_1)
qed

theorem flags_toPropertyValue_witness:
  "valuesAsFlags (EnumPropertyType 3 ''E'' StringValue [''A'', ''B''] True)
   \<and> EnumPropertyType_toPropertyValue (EnumPropertyType 3 ''E'' StringValue [''A'', ''B''] True)
        (VString ''A,Z'') = VPropertyValue (VString ''A,Z'') 3
   \<and> EnumPropertyType_toPropertyValue (EnumPropertyType 3 ''E'' StringValue [''A'', ''B''] True)
        (VString ''B,,A'') = VPropertyValue (VInt 3) 3"
  using flags_toPropertyValue [of "EnumPropertyType 3 ''E'' StringValue [''A'', ''B''] True" "''A,Z''"]
        flags_toPropertyValue [of "EnumPropertyType 3 ''E'' StringValue [''A'', ''B''] True" "''B,,A''"]
  by (simp add: split_skipEmpty_def wrap_def)

text \<open>
  C7 fails where a name occurs twice: with values a, a and string storage, index 1 is
  exported as "a" and read back as index 0.
\<close>

theorem enum_roundtrip_counterexample:
  "\<not> valuesAsFlags (EnumPropertyType 3 ''E'' StringValue [''a'', ''a''] False)
   \<and> 0 \<le> sint (1 :: 32 word)
   \<and> sint (1 :: 32 word) < int (length (values_e (EnumPropertyType 3 ''E'' StringValue [''a'', ''a''] False)))
   \<and> EnumPropertyType_toPropertyValue (EnumPropertyType 3 ''E'' StringValue [''a'', ''a''] False)
        (value_ev (EnumPropertyType_toExportValue
           (EnumPropertyType 3 ''E'' StringValue [''a'', ''a''] False) (VInt 1) example_context []))
      = wrap (EnumPropertyType 3 ''E'' StringValue [''a'', ''a''] False) (VInt 0)
   \<and> wrap (EnumPropertyType 3 ''E'' StringValue [''a'', ''a''] False) (VInt 0)
      \<noteq> wrap (EnumPropertyType 3 ''E'' StringValue [''a'', ''a''] False) (VInt 1)"
  by (simp add: EnumPropertyType_toPropertyValue_def EnumPropertyType_toExportValue_def
        PropertyType_toExportValue_def example_context_def wrap_def)

text \<open>
  C7, amended. For an enum that is not a flags enum and a valid index \<open>i\<close>, exporting
  and reading back gives the wrapped index \<open>i\<close> again, provided that the enum stores
  ints or the name at \<open>i\<close> does not occur at a smaller index, and that the host's
  toExportValue carries an int or a string as it is.
\<close>

theorem enum_roundtrip:
  assumes "\<not> valuesAsFlags e"
    and "0 \<le> sint i" and "sint i < int (length (values_e e))"
    and "storageType e = StringValue \<longrightarrow>
           (\<forall>j < nat (sint i). values_e e ! j \<noteq> values_e e ! nat (sint i))"
    and "value_ev (ctx_toExportValue context mTypes (VInt i)) = VInt i"
    and "value_ev (ctx_toExportValue context mTypes (VString (values_e e ! nat (sint i))))
           = VString (values_e e ! nat (sint i))"
  shows "EnumPropertyType_toPropertyValue e
           (value_ev (EnumPropertyType_toExportValue e (VInt i) context mTypes)) = wrap e (VInt i)"
proof (cases "storageType e")
  case IntValue
  with assms(5) show ?thesis
    by (simp add: EnumPropertyType_toExportValue_def PropertyType_toExportValue_def
          EnumPropertyType_toPropertyValue_def)
next
  case StringValue
  from assms(2,3) have lt: "nat (sint i) < length (values_e e)" by simp
  from StringValue assms(4) have "\<forall>j < nat (sint i). values_e e ! j \<noteq> values_e e ! nat (sint i)"
    by simp
  with lt have idx: "indexOf (values_e e) (values_e e ! nat (sint i)) = int (nat (sint i))"
    by (rule indexOf_first)
  with assms(2) have idx': "indexOf (values_e e) (values_e e ! nat (sint i)) = sint i" by simp
  from StringValue assms(1,2,3,6) show ?thesis
    by (simp add: EnumPropertyType_toExportValue_def PropertyType_toExportValue_def
          EnumPropertyType_toPropertyValue_def idx')
qed

theorem enum_roundtrip_witness:
  "\<not> valuesAsFlags (EnumPropertyType 3 ''E'' StringValue [''a'', ''b''] False)
   \<and> EnumPropertyType_toPropertyValue (EnumPropertyType 3 ''E'' StringValue [''a'', ''b''] False)
        (value_ev (EnumPropertyType_toExportValue
           (EnumPropertyType 3 ''E'' StringValue [''a'', ''b''] False) (VInt 1) example_context []))
      = VPropertyValue (VInt 1) 3"
  using enum_roundtrip [of "EnumPropertyType 3 ''E'' StringValue [''a'', ''b''] False" 1 example_context "[]"]
  by (simp add: example_context_def wrap_def)

lemma comma_joined_Cons:
  "comma_joined (x # r) = (if r = [] then x else x @ '','' @ comma_joined r)"
  by (cases r) simp_all

lemma comma_joined_empty: "\<forall>n\<in>set names. n \<noteq> [] \<Longrightarrow> comma_joined names = [] \<longleftrightarrow> names = []"
  by (cases names) (auto simp: comma_joined_Cons)

lemma and_shl1_test: "i < 32 \<Longrightarrow> (f AND shl1 i \<noteq> 0) = bit f i"
  by (simp add: shl1_def and_exp_eq_0_iff_not_bit)

lemma export_flags_eq:
  assumes "\<forall>v\<in>set vs. v \<noteq> []" and "length vs \<le> 32"
  shows "export_flags vs f i acc =
     (let names = map ((!) vs) (filter (bit f) [i ..< length vs])
      in if acc = [] then comma_joined names
         else if names = [] then acc
         else acc @ '','' @ comma_joined names)"
  using assms
proof (induction vs f i acc rule: export_flags.induct)
  case (1 vs f i acc)
  note nonempty = "1.prems"(1) and bound = "1.prems"(2)
  show ?case
  proof (cases "i < length vs")
    case False
    then show ?thesis by (simp add: export_flags.simps [of vs f i acc])
  next
    case True
    then have upt: "[i ..< length vs] = i # [Suc i ..< length vs]" by (rule upt_conv_Cons)
    from True nonempty have ne: "vs ! i \<noteq> []" by simp
    from True bound have "i < 32" by simp
    then have test: "(f AND shl1 i \<noteq> 0) = bit f i" by (rule and_shl1_test)
    show ?thesis
      using "1.IH" [OF True nonempty bound] True ne
      by (subst export_flags.simps) (simp add: upt test Let_def comma_joined_Cons)
  qed
qed

lemma split_keep_nosep: "sep \<notin> set a \<Longrightarrow> split_keep sep a = [a]"
  by (induction a) auto

lemma split_keep_append:
  "sep \<notin> set a \<Longrightarrow> split_keep sep (a @ sep # rest) = a # split_keep sep rest"
  by (induction a) auto

lemma split_keep_joined:
  "names \<noteq> [] \<Longrightarrow> \<forall>n\<in>set names. CHR '','' \<notin> set n
     \<Longrightarrow> split_keep CHR '','' (comma_joined names) = names"
proof (induction names rule: comma_joined.induct)
  case 1 then show ?case by simp
next
  case (2 x) then show ?case by (simp add: split_keep_nosep)
next
  case (3 x y r)
  then show ?case using split_keep_append [of "CHR '',''" x "comma_joined (y # r)"] by simp
qed

lemma split_skipEmpty_joined:
  assumes "\<forall>n\<in>set names. n \<noteq> [] \<and> CHR '','' \<notin> set n"
  shows "split_skipEmpty CHR '','' (comma_joined names) = names"
proof (cases "names = []")
  case True then show ?thesis by (simp add: split_skipEmpty_def)
next
  case False
  with assms have "split_keep CHR '','' (comma_joined names) = names"
    by (simp add: split_keep_joined)
  moreover from assms have "filter (\<lambda>part. part \<noteq> []) names = names"
    by (simp add: filter_id_conv)
  ultimately show ?thesis by (simp add: split_skipEmpty_def)
qed

lemma bit_or_bits:
  "bit (foldr (\<lambda>i w. push_bit i 1 OR w) js (0 :: 32 word)) n \<longleftrightarrow> n \<in> set js \<and> n < 32"
  by (induction js) (auto simp: bit_or_iff bit_exp_iff)

lemma or_bits_names:
  assumes "distinct vs" and "\<forall>j\<in>set js. j < length vs"
  shows "foldr (\<lambda>seg w. push_bit (nat (indexOf vs seg)) 1 OR w) (map ((!) vs) js) (0 :: 32 word)
         = foldr (\<lambda>i w. push_bit i 1 OR w) js 0"
  using assms(2)
proof (induction js)
  case Nil show ?case by simp
next
  case (Cons j js)
  then have j: "j < length vs" by simp
  with assms(1) have "\<forall>k<j. vs ! k \<noteq> vs ! j" by (simp add: nth_eq_iff_index_eq)
  with j have "indexOf vs (vs ! j) = int j" by (rule indexOf_first)
  with Cons show ?case by (simp del: push_bit_of_1)
qed

lemma or_set_bits:
  assumes "\<forall>n. bit f n \<longrightarrow> n < len"
  shows "foldr (\<lambda>i w. push_bit i 1 OR w) (filter (bit f) [0 ..< len]) (0 :: 32 word) = f"
proof (rule bit_eqI)
  fix n
  from assms have "bit f n \<Longrightarrow> n < len" by simp
  moreover have "bit f n \<Longrightarrow> n < 32" using bit_imp_le_length [of f n] by simp
  ultimately show "bit (foldr (\<lambda>i w. push_bit i 1 OR w) (filter (bit f) [0 ..< len]) (0 :: 32 word)) n
                   \<longleftrightarrow> bit f n"
    by (auto simp: bit_or_bits simp del: push_bit_of_1)
qed

text \<open>
  C8, amended. For a flags enum with string storage and at most 32 values, whose names are
  distinct, not empty and free of commas, and a bitmask \<open>f\<close> with bits only below the number of values,
  toExportValue builds the comma-joined string of the names whose bit is set, in ascending
  index order, and toPropertyValue of that string is the wrapped \<open>f\<close>; the host's
  toExportValue is assumed to carry a string as it is.
\<close>

theorem flags_roundtrip:
  assumes "valuesAsFlags e" and "storageType e = StringValue"
    and "length (values_e e) \<le> 32"
    and "distinct (values_e e)"
    and "\<forall>v \<in> set (values_e e). v \<noteq> [] \<and> CHR '','' \<notin> set v"
    and "\<forall>n. bit f n \<longrightarrow> n < length (values_e e)"
    and "\<forall>s. value_ev (ctx_toExportValue context mTypes (VString s)) = VString s"
  shows "export_flags (values_e e) f 0 []
           = comma_joined (map ((!) (values_e e)) (filter (bit f) [0 ..< length (values_e e)]))
         \<and> value_ev (EnumPropertyType_toExportValue e (VInt f) context mTypes)
           = VString (export_flags (values_e e) f 0 [])
         \<and> EnumPropertyType_toPropertyValue e
             (value_ev (EnumPropertyType_toExportValue e (VInt f) context mTypes)) = wrap e (VInt f)"
proof -
  let ?vs = "values_e e"
  let ?js = "filter (bit f) [0 ..< length ?vs]"
  let ?names = "map ((!) ?vs) ?js"
  note bound = assms(3)
  from assms(5) have ne: "\<forall>v\<in>set ?vs. v \<noteq> []" by simp
  have ex: "export_flags ?vs f 0 [] = comma_joined ?names"
    using export_flags_eq [OF ne bound, of f 0 "[]"] by (simp add: Let_def)
  have val: "value_ev (EnumPropertyType_toExportValue e (VInt f) context mTypes)
               = VString (export_flags ?vs f 0 [])"
    using assms(1,2,7)
    by (simp add: EnumPropertyType_toExportValue_def PropertyType_toExportValue_def)
  have names: "\<forall>n\<in>set ?names. n \<noteq> [] \<and> CHR '','' \<notin> set n"
    using assms(5) by auto
  have sp: "split_skipEmpty CHR '','' (comma_joined ?names) = ?names"
    using names by (rule split_skipEmpty_joined)
  have all_found: "\<forall>seg\<in>set ?names. seg \<in> set ?vs" by auto
  then have found: "\<not> (\<exists>seg\<in>set ?names. seg \<notin> set ?vs)" by blast
  have "foldr (\<lambda>seg w. shl1 (nat (indexOf ?vs seg)) OR w) ?names (0 :: 32 word)
          = foldr (\<lambda>seg w. push_bit (nat (indexOf ?vs seg)) 1 OR w) ?names 0"
    using bound all_found by (rule foldr_shl1)
  also have "\<dots> = foldr (\<lambda>i w. push_bit i 1 OR w) ?js 0"
    using assms(4) by (rule or_bits_names) simp
  also have "\<dots> = f" using assms(6) by (rule or_set_bits)
  finally have bits: "foldr (\<lambda>seg w. shl1 (nat (indexOf ?vs seg)) OR w) ?names (0 :: 32 word) = f" .
  have "EnumPropertyType_toPropertyValue e (VString (comma_joined ?names)) = wrap e (VInt f)"
    using assms(1) found
    by (simp add: EnumPropertyType_toPropertyValue_def import_flags_eq sp bits del: set_map set_filter)
  with ex val show ?thesis by simp
qed

text \<open>
  C8 fails for a name that holds a comma, for an empty name, and for more than 32 values:
  the only name "a,b" is exported for bit 0 and read back as the two unknown names "a" and
  "b", so the string is kept; the only name "" is exported as the empty string and read
  back as no flag at all; and of the 33 names v0 to v32 the bitmask 1, which has bit 0
  only, is exported as "v0,v32", not as "v0".
\<close>

theorem flags_roundtrip_counterexample:
  "valuesAsFlags (EnumPropertyType 3 ''E'' StringValue [''a,b''] True)
   \<and> storageType (EnumPropertyType 3 ''E'' StringValue [''a,b''] True) = StringValue
   \<and> distinct (values_e (EnumPropertyType 3 ''E'' StringValue [''a,b''] True))
   \<and> take_bit (length (values_e (EnumPropertyType 3 ''E'' StringValue [''a,b''] True))) (1 :: 32 word) = 1
   \<and> value_ev (EnumPropertyType_toExportValue
        (EnumPropertyType 3 ''E'' StringValue [''a,b''] True) (VInt 1) example_context [])
      = VString ''a,b''
   \<and> EnumPropertyType_toPropertyValue (EnumPropertyType 3 ''E'' StringValue [''a,b''] True)
        (VString ''a,b'') = VPropertyValue (VString ''a,b'') 3
   \<and> wrap (EnumPropertyType 3 ''E'' StringValue [''a,b''] True) (VInt 1)
      = VPropertyValue (VInt 1) 3
   \<and> value_ev (EnumPropertyType_toExportValue
        (EnumPropertyType 4 ''F'' StringValue [[]] True) (VInt 1) example_context [])
      = VString []
   \<and> EnumPropertyType_toPropertyValue (EnumPropertyType 4 ''F'' StringValue [[]] True)
        (VString []) = VPropertyValue (VInt 0) 4
   \<and> distinct names33
   \<and> filter (bit (1 :: 32 word)) [0 ..< length names33] = [0]
   \<and> value_ev (EnumPropertyType_toExportValue
        (EnumPropertyType 5 ''G'' StringValue names33 True) (VInt 1) example_context [])
      = VString ''v0,v32''"
  by code_simp

theorem flags_roundtrip_witness:
  "export_flags [''A'', ''B'', ''C''] 5 0 [] = ''A,C''
   \<and> EnumPropertyType_toPropertyValue (EnumPropertyType 3 ''E'' StringValue [''A'', ''B'', ''C''] True)
        (value_ev (EnumPropertyType_toExportValue
           (EnumPropertyType 3 ''E'' StringValue [''A'', ''B'', ''C''] True) (VInt 5)
           example_context []))
      = VPropertyValue (VInt 5) 3"
proof -
  have bits: "\<forall>n. bit (5 :: 32 word) n \<longrightarrow>
                n < length (values_e (EnumPropertyType 3 ''E'' StringValue [''A'', ''B'', ''C''] True))"
  proof (intro allI impI)
    fix n assume "bit (5 :: 32 word) n"
    moreover have "take_bit 3 (5 :: 32 word) = 5" by simp
    ultimately have "bit (take_bit 3 (5 :: 32 word)) n" by simp
    then have "n < 3" by (simp only: bit_take_bit_iff)
    then show "n < length (values_e (EnumPropertyType 3 ''E'' StringValue [''A'', ''B'', ''C''] True))"
      by simp
  qed
  have names: "filter (bit (5 :: 32 word)) [0 ..< 3] = [0, 2]"
    by (simp add: upt_rec bit_numeral_rec)
  have host: "\<forall>s. value_ev (ctx_toExportValue example_context [] (VString s)) = VString s"
    by (simp add: example_context_def)
  have "export_flags (values_e (EnumPropertyType 3 ''E'' StringValue [''A'', ''B'', ''C''] True)) 5 0 []
          = comma_joined (map ((!) (values_e (EnumPropertyType 3 ''E'' StringValue [''A'', ''B'', ''C''] True)))
              (filter (bit (5 :: 32 word))
                 [0 ..< length (values_e (EnumPropertyType 3 ''E'' StringValue [''A'', ''B'', ''C''] True))]))
        \<and> value_ev (EnumPropertyType_toExportValue
             (EnumPropertyType 3 ''E'' StringValue [''A'', ''B'', ''C''] True) (VInt 5) example_context [])
          = VString (export_flags (values_e (EnumPropertyType 3 ''E'' StringValue [''A'', ''B'', ''C''] True)) 5 0 [])
        \<and> EnumPropertyType_toPropertyValue (EnumPropertyType 3 ''E'' StringValue [''A'', ''B'', ''C''] True)
            (value_ev (EnumPropertyType_toExportValue
               (EnumPropertyType 3 ''E'' StringValue [''A'', ''B'', ''C''] True) (VInt 5) example_context []))
          = wrap (EnumPropertyType 3 ''E'' StringValue [''A'', ''B'', ''C''] True) (VInt 5)"
    by (rule flags_roundtrip [OF _ _ _ _ _ bits host]) simp_all
  then show ?thesis by (auto simp: names wrap_def)
qed

subsection \<open>Class values\<close>

lemma map_depth_entry: "(k, v) \<in> set m \<Longrightarrow> map_depth v < map_depth (VMap m)"
proof -
  have "x \<in> set xs \<Longrightarrow> x \<le> foldr max xs (0::nat)" for x xs
    by (induction xs) auto
  moreover assume "(k, v) \<in> set m"
  then have "map_depth v \<in> set (map (\<lambda>kv. map_depth (snd kv)) m)" by force
  ultimately show ?thesis by (simp add: less_Suc_eq_le)
qed

lemma loop_keys:
  "toPropertyValue_loop nested context mTypes ms props = Some props'
   \<Longrightarrow> map fst props' = map fst props
       \<and> (\<forall>j < length props. \<not> isValid (value_of ms (fst (props ! j))) \<longrightarrow> props' ! j = props ! j)"
proof (induction props arbitrary: props')
  case Nil then show ?case by simp
next
  case (Cons kv props)
  obtain key v where kv: "kv = (key, v)" by (cases kv)
  from Cons.prems obtain p rest where
    rest: "toPropertyValue_loop nested context mTypes ms props = Some rest"
    and props': "props' = (key, p) # rest"
    and stale: "\<not> isValid (value_of ms key) \<Longrightarrow> p = v"
    by (auto simp: kv Let_def split: if_splits option.splits)
  from Cons.IH [OF rest] show ?case
    by (auto simp: props' kv stale nth_Cons split: nat.splits)
qed

lemma loop_mono:
  assumes "\<And>t v r. nested t v = Some r \<Longrightarrow> nested' t v = Some r"
  shows "toPropertyValue_loop nested context mTypes ms props = Some props'
         \<Longrightarrow> toPropertyValue_loop nested' context mTypes ms props = Some props'"
proof (induction props arbitrary: props')
  case Nil then show ?case by simp
next
  case (Cons kv props)
  obtain key v where kv: "kv = (key, v)" by (cases kv)
  from Cons.prems Cons.IH assms show ?case
    by (auto simp: kv Let_def split: if_splits option.splits)
qed

lemma loop_total:
  assumes "\<And>k v t mt. (k, v) \<in> set props \<Longrightarrow> \<exists>r. nested t (ctx_toPropertyValue context mTypes v mt) = Some r"
  shows "\<exists>props'. toPropertyValue_loop nested context mTypes ms props = Some props'"
  using assms
proof (induction props)
  case Nil show ?case by simp
next
  case (Cons kv props)
  obtain key v where kv: "kv = (key, v)" by (cases kv)
  have "\<exists>props'. toPropertyValue_loop nested context mTypes ms props = Some props'"
  proof (rule Cons.IH)
    fix k v t mt assume "(k, v) \<in> set props"
    then have "(k, v) \<in> set (kv # props)" by simp
    then show "\<exists>r. nested t (ctx_toPropertyValue context mTypes v mt) = Some r"
      by (rule Cons.prems)
  qed
  then obtain rest where
    rest: "toPropertyValue_loop nested context mTypes ms props = Some rest" by blast
  from Cons.prems [of key v] kv
  have here: "\<And>t mt. \<exists>r. nested t (ctx_toPropertyValue context mTypes v mt) = Some r" by simp
  show ?case
  proof (cases "userType (value_of ms key) = propertyValueId
                \<and> findTypeById mTypes (typeId (value_of ms key)) \<noteq> None")
    case True
    then obtain p where p: "findTypeById mTypes (typeId (value_of ms key)) = Some p" by blast
    from here [of "mTypes ! p" "userType (value_of ms key)"] obtain r where
      "nested (mTypes ! p) (ctx_toPropertyValue context mTypes v (userType (value_of ms key))) = Some r"
      by blast
    with True p rest show ?thesis by (simp add: kv Let_def)
  next
    case False
    with rest show ?thesis by (auto simp: kv Let_def split: option.splits)
  qed
qed

lemma virtual_mono:
  assumes "\<And>t v r. nested t v = Some r \<Longrightarrow> nested' t v = Some r"
    and "toPropertyValue_virtual nested t v context mTypes = Some r"
  shows "toPropertyValue_virtual nested' t v context mTypes = Some r"
proof (cases "type_pt t = PT_Class")
  case False
  with assms(2) show ?thesis
    by (cases "type_pt t") (simp_all add: toPropertyValue_virtual_def)
next
  case True
  with assms(2) obtain z where
    z: "toPropertyValue_loop nested context mTypes (members t) (toMap v) = Some z"
    and r: "r = wrap t (VMap z)"
    by (auto simp: toPropertyValue_virtual_def ClassPropertyType_toPropertyValue_def)
  from assms(1) z have "toPropertyValue_loop nested' context mTypes (members t) (toMap v) = Some z"
    by (rule loop_mono)
  with True r show ?thesis
    by (simp add: toPropertyValue_virtual_def ClassPropertyType_toPropertyValue_def)
qed

lemma toPropertyValue_mono:
  "toPropertyValue k t v context mTypes = Some r \<Longrightarrow> toPropertyValue (Suc k) t v context mTypes = Some r"
proof (induction k arbitrary: t v r)
  case 0
  have "toPropertyValue_virtual (\<lambda>p pv. toPropertyValue 0 p pv context mTypes) t v context mTypes = Some r"
    by (rule virtual_mono [where nested = "\<lambda>_ _. None"]) (use "0.prems" in simp_all)
  then show ?case by (simp only: toPropertyValue.simps)
next
  case (Suc k)
  have "toPropertyValue_virtual (\<lambda>p pv. toPropertyValue (Suc k) p pv context mTypes) t v context mTypes = Some r"
  proof (rule virtual_mono [where nested = "\<lambda>p pv. toPropertyValue k p pv context mTypes"])
    show "toPropertyValue (Suc k) t' v' context mTypes = Some r'"
      if "toPropertyValue k t' v' context mTypes = Some r'" for t' v' r'
      using that by (rule Suc.IH)
    show "toPropertyValue_virtual (\<lambda>p pv. toPropertyValue k p pv context mTypes) t v context mTypes = Some r"
      using Suc.prems by (simp only: toPropertyValue.simps)
  qed
  then show ?case by (simp only: toPropertyValue.simps)
qed

lemma toPropertyValue_mono_le:
  "toPropertyValue k t v context mTypes = Some r \<Longrightarrow> k \<le> k'
   \<Longrightarrow> toPropertyValue k' t v context mTypes = Some r"
proof -
  assume r: "toPropertyValue k t v context mTypes = Some r" and "k \<le> k'"
  then obtain d where k': "k' = k + d" by (auto simp: le_iff_add)
  have "toPropertyValue (k + d) t v context mTypes = Some r"
  proof (induction d)
    case 0 from r show ?case by simp
  next
    case (Suc d)
    then have "toPropertyValue (Suc (k + d)) t v context mTypes = Some r"
      by (rule toPropertyValue_mono)
    then show ?case by (simp only: add_Suc_right)
  qed
  with k' show ?thesis by simp
qed

lemma toMap_entry_depth: "(key, x) \<in> set (toMap v) \<Longrightarrow> map_depth x < map_depth v"
  by (cases v) (simp_all add: map_depth_entry del: map_depth.simps)

lemma virtual_total:
  assumes "\<And>key x t' mt. (key, x) \<in> set (toMap v)
             \<Longrightarrow> \<exists>r. nested t' (ctx_toPropertyValue context mTypes x mt) = Some r"
  shows "\<exists>r. toPropertyValue_virtual nested t v context mTypes = Some r"
proof (cases "type_pt t = PT_Class")
  case False
  then show ?thesis by (cases "type_pt t") (simp_all add: toPropertyValue_virtual_def)
next
  case True
  from assms have "\<exists>props'. toPropertyValue_loop nested context mTypes (members t) (toMap v) = Some props'"
    by (rule loop_total)
  with True show ?thesis
    by (auto simp: toPropertyValue_virtual_def ClassPropertyType_toPropertyValue_def)
qed

lemma toPropertyValue_total:
  assumes host: "\<And>ts x mt. map_depth (ctx_toPropertyValue context ts x mt) \<le> map_depth x"
  shows "map_depth v \<le> k \<Longrightarrow> \<exists>r. toPropertyValue k t v context mTypes = Some r"
proof (induction k arbitrary: t v)
  case 0
  have "\<exists>r. toPropertyValue_virtual (\<lambda>_ _. None) t v context mTypes = Some r"
  proof (rule virtual_total)
    fix key x t' mt assume "(key, x) \<in> set (toMap v)"
    then have "map_depth x < map_depth v" by (rule toMap_entry_depth)
    with "0.prems" show "\<exists>r. None = Some r" by simp
  qed
  then show ?case by (simp only: toPropertyValue.simps)
next
  case (Suc k)
  have "\<exists>r. toPropertyValue_virtual (\<lambda>p pv. toPropertyValue k p pv context mTypes) t v context mTypes = Some r"
  proof (rule virtual_total)
    fix key x t' mt assume "(key, x) \<in> set (toMap v)"
    then have "map_depth x < map_depth v" by (rule toMap_entry_depth)
    with Suc.prems host [of mTypes x mt]
    have "map_depth (ctx_toPropertyValue context mTypes x mt) \<le> k" by simp
    then show "\<exists>r. toPropertyValue k t' (ctx_toPropertyValue context mTypes x mt) context mTypes = Some r"
      by (rule Suc.IH)
  qed
  then show ?case by (simp only: toPropertyValue.simps)
qed

text \<open>
  C1, amended. ClassPropertyType::toPropertyValue on a mapping returns, and the wrapped
  mapping it returns has exactly the keys of the input, in the same order: an entry whose
  key is not a (valid) member of the class is skipped by the conversion and stays in the
  result with its value unchanged. The call returns for every fuel from the nesting depth
  of the input on, with the same result, provided the host's conversion does not nest maps
  deeper than its input.
\<close>

theorem class_toPropertyValue_keys:
  assumes "\<forall>ts x mt. map_depth (ctx_toPropertyValue context ts x mt) \<le> map_depth x"
  shows "\<exists>properties'.
           (\<forall>k \<ge> map_depth (VMap properties).
              toPropertyValue k (ClassPropertyType i n ms) (VMap properties) context mTypes
                = Some (VPropertyValue (VMap properties') i))
           \<and> map fst properties' = map fst properties
           \<and> (\<forall>j < length properties.
                 \<not> isValid (value_of ms (fst (properties ! j))) \<longrightarrow> properties' ! j = properties ! j)"
proof -
  let ?c = "ClassPropertyType i n ms"
  let ?d = "map_depth (VMap properties)"
  from assms have host: "\<And>ts x mt. map_depth (ctx_toPropertyValue context ts x mt) \<le> map_depth x"
    by simp
  from toPropertyValue_total [OF host, of "VMap properties" ?d ?c mTypes]
  obtain r where r: "toPropertyValue ?d ?c (VMap properties) context mTypes = Some r" by blast
  then obtain ps where
    loop: "toPropertyValue_loop (case ?d of 0 \<Rightarrow> (\<lambda>_ _. None)
              | Suc k \<Rightarrow> (\<lambda>p pv. toPropertyValue k p pv context mTypes)) context mTypes ms properties = Some ps"
    and rw: "r = VPropertyValue (VMap ps) i"
    by (cases ?d) (auto simp: toPropertyValue_virtual_def ClassPropertyType_toPropertyValue_def
          wrap_def simp del: map_depth.simps)
  have all: "\<forall>k \<ge> ?d. toPropertyValue k ?c (VMap properties) context mTypes
               = Some (VPropertyValue (VMap ps) i)"
    using r rw toPropertyValue_mono_le by blast
  from loop_keys [OF loop] all show ?thesis by blast
qed

text \<open>
  C1 fails: the key "stale" is in the input and not among the members of the class, and it
  is in the result.
\<close>

theorem class_toPropertyValue_keys_counterexample:
  "toPropertyValue 0 (ClassPropertyType 5 ''C'' [(''a'', VInt 0)])
     (VMap [(''a'', VInt 1), (''stale'', VInt 2)]) example_context []
     = Some (VPropertyValue (VMap [(''a'', VInt 1), (''stale'', VInt 2)]) 5)
   \<and> ''stale'' \<notin> fst ` set (members (ClassPropertyType 5 ''C'' [(''a'', VInt 0)]))"
  by (simp add: toPropertyValue_virtual_def ClassPropertyType_toPropertyValue_def wrap_def
        value_of_def isValid_def example_context_def)

theorem class_toPropertyValue_keys_witness:
  "map_depth (VMap [(''a'', VInt 1), (''d'', VString ''S''), (''stale'', VInt 2)]) = 1
   \<and> toPropertyValue 1
     (ClassPropertyType 5 ''C'' [(''a'', VInt 0), (''d'', VPropertyValue (VInt 0) 7)])
     (VMap [(''a'', VInt 1), (''d'', VString ''S''), (''stale'', VInt 2)]) example_context
     [EnumPropertyType 7 ''Dir'' StringValue [''N'', ''S''] False]
     = Some (VPropertyValue
         (VMap [(''a'', VInt 1), (''d'', VPropertyValue (VInt 1) 7), (''stale'', VInt 2)]) 5)"
proof -
  let ?v = "VMap [(''a'', VInt 1), (''d'', VString ''S''), (''stale'', VInt 2)]"
  let ?c = "ClassPropertyType 5 ''C'' [(''a'', VInt 0), (''d'', VPropertyValue (VInt 0) 7)]"
  let ?ts = "[EnumPropertyType 7 ''Dir'' StringValue [''N'', ''S''] False]"
  have host: "\<forall>ts x mt. map_depth (ctx_toPropertyValue example_context ts x mt) \<le> map_depth x"
    by (simp add: example_context_def)
  have d: "map_depth ?v = 1" by simp
  from class_toPropertyValue_keys [OF host, of "[(''a'', VInt 1), (''d'', VString ''S''), (''stale'', VInt 2)]"
      5 "''C''" "[(''a'', VInt 0), (''d'', VPropertyValue (VInt 0) 7)]" ?ts]
  obtain properties' where
    all: "\<forall>k \<ge> map_depth ?v. toPropertyValue k ?c ?v example_context ?ts
            = Some (VPropertyValue (VMap properties') 5)"
    and keys: "map fst properties' = map fst [(''a'', VInt 1), (''d'', VString ''S''), (''stale'', VInt 2)]"
    by blast
  have r: "toPropertyValue 1 ?c ?v example_context ?ts = Some (VPropertyValue (VMap properties') 5)"
    by (rule all [rule_format]) (simp only: d order.refl)
  have "toPropertyValue 1 ?c ?v example_context ?ts
          = Some (VPropertyValue
              (VMap [(''a'', VInt 1), (''d'', VPropertyValue (VInt 1) 7), (''stale'', VInt 2)]) 5)"
    by (simp add: toPropertyValue_virtual_def ClassPropertyType_toPropertyValue_def wrap_def
          value_of_def isValid_def example_context_def findTypeById_def
          EnumPropertyType_toPropertyValue_def)
  with r d show ?thesis by simp
qed



subsection \<open>The factory\<close>

lemma fromVariant_fields:
  "type_pt (fromVariant pt variant) = type_pt pt
   \<and> id_pt (fromVariant pt variant) = id_pt pt
   \<and> name (fromVariant pt variant) = name pt"
  by (cases pt)
    (simp_all add: fromVariant_def EnumPropertyType_fromVariant_def ClassPropertyType_fromVariant_def)

lemma createFromVariant_cases:
  "createFromVariant q variant nextId =
     (let i = toInt q (value_of variant ''id'');
          n = toString (value_of variant ''name'')
      in case typeFromString (toString (value_of variant ''type'')) of
           PT_Invalid \<Rightarrow> (None, nextId)
         | PT_Class \<Rightarrow> (Some (fromVariant (ClassPropertyType i n []) variant),
                        max (increment nextId) i)
         | PT_Enum \<Rightarrow> (Some (fromVariant (EnumPropertyType i n StringValue [] False) variant),
                       max (increment nextId) i))"
  by (simp add: createFromVariant_def new_ClassPropertyType_def new_EnumPropertyType_def Let_def
        split: Type.splits)

lemma createFromVariant_Some:
  assumes "createFromVariant q variant nextId = (Some pt, nextId')"
  shows "type_pt pt = typeFromString (toString (value_of variant ''type''))
         \<and> id_pt pt = toInt q (value_of variant ''id'')
         \<and> name pt = toString (value_of variant ''name'')
         \<and> nextId' = max (increment nextId) (id_pt pt)"
  using assms
  by (auto simp: createFromVariant_cases Let_def fromVariant_fields split: Type.splits)

lemma createFromVariant_None:
  "fst (createFromVariant q variant nextId) = None
   \<longleftrightarrow> typeFromString (toString (value_of variant ''type'')) = PT_Invalid"
  by (simp add: createFromVariant_cases Let_def split: Type.splits)

lemma createFromVariant_Invalid:
  "typeFromString (toString (value_of variant ''type'')) = PT_Invalid
   \<Longrightarrow> createFromVariant q variant nextId = (None, nextId)"
  by (simp add: createFromVariant_cases Let_def)

text \<open>
  C4 fails for an unknown type string: a record whose type is "tileset" gives the null
  pointer, not an enum.
\<close>

theorem createFromVariant_dispatch_counterexample:
  "createFromVariant (\<lambda>s. 0) [(''id'', VInt 1), (''name'', VString ''X''), (''type'', VString ''tileset'')] 0
     = (None, 0)"
  by (simp add: createFromVariant_cases value_of_def typeFromString_def)

text \<open>
  C4, amended. createFromVariant calls the Enum constructor when the record's type string
  is empty, as it is when the field is missing, or "enum", and the Class constructor when it
  is "class"; the new type has the record's id and name. For every other type string the
  kind is Invalid and createFromVariant returns the null pointer and leaves the counter as
  it is; loadFrom's first loop then skips the record and goes on with the rest of the list.
\<close>

theorem createFromVariant_dispatch:
  "(toString (value_of variant ''type'') \<in> {[], ''enum''} \<longrightarrow>
      (\<exists>e. fst (createFromVariant q variant nextId) = Some e \<and> type_pt e = PT_Enum
           \<and> id_pt e = toInt q (value_of variant ''id'')
           \<and> name e = toString (value_of variant ''name'')))
   \<and> (map_of variant ''type'' = None \<longrightarrow> toString (value_of variant ''type'') = [])
   \<and> (toString (value_of variant ''type'') = ''class'' \<longrightarrow>
      (\<exists>c. fst (createFromVariant q variant nextId) = Some c \<and> type_pt c = PT_Class
           \<and> id_pt c = toInt q (value_of variant ''id'')
           \<and> name c = toString (value_of variant ''name'')))
   \<and> (toString (value_of variant ''type'') \<notin> {[], ''enum'', ''class''} \<longrightarrow>
      createFromVariant q variant nextId = (None, nextId)
      \<and> fold (load_step q) (VMap variant # list) (mTypes, nextId)
          = fold (load_step q) list (mTypes, nextId))"
proof -
  let ?t = "toString (value_of variant ''type'')"
  have enum: "?t \<in> {[], ''enum''} \<Longrightarrow> typeFromString ?t = PT_Enum"
    by (auto simp: typeFromString_def)
  have cls: "?t = ''class'' \<Longrightarrow> typeFromString ?t = PT_Class"
    by (simp add: typeFromString_def)
  have inv: "?t \<notin> {[], ''enum'', ''class''} \<Longrightarrow> typeFromString ?t = PT_Invalid"
    by (simp add: typeFromString_def)
  have missing: "map_of variant ''type'' = None \<Longrightarrow> ?t = []"
    by (simp add: value_of_def)
  show ?thesis
    using enum cls inv missing
    by (auto simp: createFromVariant_cases Let_def fromVariant_fields load_step_def
          simp del: insert_iff)
qed

theorem createFromVariant_dispatch_witness:
  "toString (value_of [(''id'', VInt 1), (''name'', VString ''X''), (''type'', VString ''tileset'')] ''type'')
     \<notin> {[], ''enum'', ''class''}
   \<and> createFromVariant (\<lambda>s. 0) [(''id'', VInt 1), (''name'', VString ''X''), (''type'', VString ''tileset'')] 4
       = (None, 4)
   \<and> toString (value_of [(''id'', VInt 1), (''name'', VString ''X'')] ''type'') \<in> {[], ''enum''}
   \<and> fst (createFromVariant (\<lambda>s. 0) [(''id'', VInt 1), (''name'', VString ''X'')] 4)
       = Some (EnumPropertyType 1 ''X'' StringValue [] False)"
  using createFromVariant_dispatch [of "[(''id'', VInt 1), (''name'', VString ''X''), (''type'', VString ''tileset'')]" "\<lambda>s. 0" 4]
    createFromVariant_dispatch [of "[(''id'', VInt 1), (''name'', VString ''X'')]" "\<lambda>s. 0" 4]
  by (simp add: value_of_def value_or_def createFromVariant_cases typeFromString_def fromVariant_def
        EnumPropertyType_fromVariant_def)

lemma increment_in_range:
  "- 2147483648 \<le> n \<Longrightarrow> n < 2147483647 \<Longrightarrow> increment n = n + 1"
  by (simp add: increment_def)

lemma increment_ge: "- 2147483648 \<le> increment n"
  by (simp add: increment_def)

lemma increment_less: "n < 2147483647 \<Longrightarrow> n < increment n"
proof (cases "- 2147483648 \<le> n")
  case True
  moreover assume "n < 2147483647"
  ultimately show ?thesis by (simp add: increment_in_range)
next
  case False
  with increment_ge [of n] show ?thesis by linarith
qed

lemma createFromVariant_nextId_le:
  "nextId < 2147483647 \<Longrightarrow> nextId \<le> snd (createFromVariant q variant nextId)"
  using increment_less [of nextId]
  by (auto simp: createFromVariant_cases Let_def split: Type.splits)

text \<open>
  C6 fails in two ways. The ids of the constructed types are the records' ids, in whatever
  order they come: a record with id 7 and then one with id 3 give the ids 7 and 3. And the
  counter falls when it is at the greatest int: a record with id 2147483647 brings it there,
  and at the next record the constructor's increment wraps around, so that after a record
  with id 3 the counter is 3.
\<close>

theorem createFromVariant_counter_counterexample:
  "createFromVariant (\<lambda>s. 0) [(''id'', VInt 7), (''name'', VString ''A''), (''type'', VString ''enum'')] 0
     = (Some (EnumPropertyType 7 ''A'' StringValue [] False), 7)
   \<and> createFromVariant (\<lambda>s. 0) [(''id'', VInt 3), (''name'', VString ''B''), (''type'', VString ''enum'')] 7
     = (Some (EnumPropertyType 3 ''B'' StringValue [] False), 8)
   \<and> createFromVariant (\<lambda>s. 0)
       [(''id'', VInt 2147483647), (''name'', VString ''C''), (''type'', VString ''enum'')] 8
     = (Some (EnumPropertyType 2147483647 ''C'' StringValue [] False), 2147483647)
   \<and> createFromVariant (\<lambda>s. 0) [(''id'', VInt 3), (''name'', VString ''B''), (''type'', VString ''enum'')]
       2147483647
     = (Some (EnumPropertyType 3 ''B'' StringValue [] False), 3)"
  by (simp add: createFromVariant_cases value_of_def value_or_def typeFromString_def fromVariant_def
        EnumPropertyType_fromVariant_def increment_def)

text \<open>
  C6, amended. When createFromVariant constructs a type, the type has the record's id,
  whatever the ids before it were, and the counter \<open>nextId\<close> is at least that id
  afterwards; if the counter is then still below the greatest int, the id a constructor
  assigns next is greater than the record's id (at least 8 after a record with id 7).
  While the counter is below the greatest int, createFromVariant does not decrease it, and
  increases it when it constructs a type. Over a sequence of createFromVariant calls, each
  begun with the counter below the greatest int, the counter does not decrease from one
  call to the next.
\<close>

theorem createFromVariant_counter:
  "(\<forall>pt. fst (createFromVariant q variant nextId) = Some pt \<longrightarrow>
         id_pt pt = toInt q (value_of variant ''id'')
         \<and> id_pt pt \<le> snd (createFromVariant q variant nextId)
         \<and> (nextId < 2147483647 \<longrightarrow> nextId < snd (createFromVariant q variant nextId))
         \<and> (snd (createFromVariant q variant nextId) < 2147483647 \<longrightarrow>
              id_pt pt + 1 \<le> id_pt (fst (new_EnumPropertyType n (snd (createFromVariant q variant nextId))))
              \<and> id_pt pt + 1 \<le> id_pt (fst (new_ClassPropertyType n (snd (createFromVariant q variant nextId))))))
   \<and> (nextId < 2147483647 \<longrightarrow> nextId \<le> snd (createFromVariant q variant nextId))
   \<and> ((\<forall>j < length variants.
          fold (\<lambda>variant k. snd (createFromVariant q variant k)) (take j variants) nextId < 2147483647)
        \<longrightarrow> (\<forall>j < length variants.
              fold (\<lambda>variant k. snd (createFromVariant q variant k)) (take j variants) nextId
              \<le> fold (\<lambda>variant k. snd (createFromVariant q variant k)) (take (Suc j) variants) nextId))"
proof -
  let ?c = "snd (createFromVariant q variant nextId)"
  let ?counter = "\<lambda>j. fold (\<lambda>variant k. snd (createFromVariant q variant k)) (take j variants) nextId"
  have one: "nextId \<le> ?c" if "nextId < 2147483647"
    using that by (rule createFromVariant_nextId_le)
  have some: "id_pt pt = toInt q (value_of variant ''id'')
         \<and> id_pt pt \<le> ?c
         \<and> (nextId < 2147483647 \<longrightarrow> nextId < ?c)
         \<and> (?c < 2147483647 \<longrightarrow>
              id_pt pt + 1 \<le> id_pt (fst (new_EnumPropertyType n ?c))
              \<and> id_pt pt + 1 \<le> id_pt (fst (new_ClassPropertyType n ?c)))"
    if "fst (createFromVariant q variant nextId) = Some pt" for pt
  proof -
    from that have "createFromVariant q variant nextId = (Some pt, ?c)"
      by (metis prod.collapse)
    from createFromVariant_Some [OF this] have
      i: "id_pt pt = toInt q (value_of variant ''id'')" and c: "?c = max (increment nextId) (id_pt pt)"
      by simp_all
    have grown: "nextId < ?c" if "nextId < 2147483647"
      using c increment_less [OF that] by simp
    from c have le: "id_pt pt \<le> ?c" by simp
    have "id_pt pt + 1 \<le> increment ?c" if below: "?c < 2147483647"
    proof -
      from c increment_ge [of nextId] have "- 2147483648 \<le> ?c" by simp
      from this below have "increment ?c = ?c + 1" by (rule increment_in_range)
      with le show ?thesis by simp
    qed
    with i grown le show ?thesis
      by (simp add: new_EnumPropertyType_def new_ClassPropertyType_def)
  qed
  have seq: "?counter j \<le> ?counter (Suc j)"
    if below: "\<forall>j < length variants. ?counter j < 2147483647" and j: "j < length variants" for j
  proof -
    from j have "take (Suc j) variants = take j variants @ [variants ! j]"
      by (rule take_Suc_conv_app_nth)
    then have "?counter (Suc j) = snd (createFromVariant q (variants ! j) (?counter j))" by simp
    moreover from below j have "?counter j < 2147483647" by simp
    then have "?counter j \<le> snd (createFromVariant q (variants ! j) (?counter j))"
      by (rule createFromVariant_nextId_le)
    ultimately show ?thesis by simp
  qed
  from one some seq show ?thesis by blast
qed

theorem createFromVariant_counter_witness:
  "(2 :: int) < 2147483647
   \<and> createFromVariant (\<lambda>s. 0) [(''id'', VInt 7), (''name'', VString ''X''), (''type'', VString ''class'')] 2
     = (Some (ClassPropertyType 7 ''X'' []), 7)
   \<and> new_EnumPropertyType ''Y'' 7 = (EnumPropertyType 8 ''Y'' StringValue [] False, 8)"
proof -
  let ?r = "[(''id'', VInt 7), (''name'', VString ''X''), (''type'', VString ''class'')]"
  have c: "createFromVariant (\<lambda>s. 0) ?r 2 = (Some (ClassPropertyType 7 ''X'' []), 7)"
    by (simp add: createFromVariant_cases value_of_def typeFromString_def fromVariant_def
        ClassPropertyType_fromVariant_def increment_def)
  then have f: "fst (createFromVariant (\<lambda>s. 0) ?r 2) = Some (ClassPropertyType 7 ''X'' [])"
    and below: "snd (createFromVariant (\<lambda>s. 0) ?r 2) < 2147483647" by simp_all
  from createFromVariant_counter [of "\<lambda>s. 0" ?r 2 "''Y''" "[]"] f below
  have "id_pt (ClassPropertyType 7 ''X'' []) + 1
          \<le> id_pt (fst (new_EnumPropertyType ''Y'' (snd (createFromVariant (\<lambda>s. 0) ?r 2))))"
    by blast
  with c show ?thesis by (simp add: new_EnumPropertyType_def increment_def)
qed

subsection \<open>Loading the registry\<close>

lemma find_if_Some:
  "find_if P xs = Some p \<Longrightarrow> p < length xs \<and> P (xs ! p) \<and> (\<forall>j<p. \<not> P (xs ! j))"
proof (induction xs arbitrary: p)
  case Nil then show ?case by simp
next
  case (Cons x xs)
  show ?case
  proof (cases "P x")
    case True with Cons.prems show ?thesis by simp
  next
    case False
    with Cons.prems obtain p' where p': "find_if P xs = Some p'" and p: "p = Suc p'" by auto
    from Cons.IH [OF p'] False show ?thesis by (auto simp: p nth_Cons split: nat.splits)
  qed
qed

lemma find_if_ex: "\<exists>x\<in>set xs. P x \<Longrightarrow> \<exists>p. find_if P xs = Some p"
  by (induction xs) auto

lemma load_step_cases:
  "load_step q r s =
     (if snd (snd (record_fields q r)) = PT_Invalid then s
      else (fst s @ [the (fst (createFromVariant q (toMap r) (snd s)))],
            snd (createFromVariant q (toMap r) (snd s))))"
  by (cases s)
    (auto simp: load_step_def record_fields_def add_def createFromVariant_cases Let_def
       split: Type.splits)

lemma created_fields:
  "snd (snd (record_fields q r)) \<noteq> PT_Invalid
   \<Longrightarrow> base_fields (the (fst (createFromVariant q (toMap r) n))) = record_fields q r"
  by (auto simp: record_fields_def base_fields_def createFromVariant_cases Let_def fromVariant_fields
        split: Type.splits)

lemma load_fold_fields:
  "map base_fields (fst (fold (load_step q) list s))
     = map base_fields (fst s)
       @ map (record_fields q) (filter (\<lambda>r. snd (snd (record_fields q r)) \<noteq> PT_Invalid) list)"
proof (induction list arbitrary: s)
  case Nil show ?case by simp
next
  case (Cons r list)
  show ?case
    by (simp add: Cons.IH) (simp add: load_step_cases created_fields)
qed

lemma resolveMember_facts:
  assumes "p < length ts" and "type_pt (ts ! p) = PT_Class"
  shows "length (resolveMember ctx p j ts) = length ts"
    and "p' \<noteq> p \<Longrightarrow> resolveMember ctx p j ts ! p' = ts ! p'"
    and "base_fields (resolveMember ctx p j ts ! p) = base_fields (ts ! p)"
    and "members (resolveMember ctx p j ts ! p)
           = (members (ts ! p))[j := (fst (members (ts ! p) ! j),
                ctx_toPropertyValue_ev ctx ts (member_exportValue (snd (members (ts ! p) ! j))))]"
  using assms by (simp_all add: resolveMember_def Let_def base_fields_def)

lemma same_fields:
  assumes "length ts' = length ts" and "\<forall>p'. p' \<noteq> p \<longrightarrow> ts' ! p' = ts ! p'"
    and "base_fields (ts' ! p) = base_fields (ts ! p)"
  shows "map base_fields ts' = map base_fields ts"
proof (rule nth_equalityI)
  show "length (map base_fields ts') = length (map base_fields ts)" using assms(1) by simp
next
  fix i assume "i < length (map base_fields ts')"
  then have i: "i < length ts'" "i < length ts" using assms(1) by simp_all
  show "map base_fields ts' ! i = map base_fields ts ! i"
  proof (cases "i = p")
    case True with i assms(3) show ?thesis by simp
  next
    case False with i assms(2) show ?thesis by simp
  qed
qed

lemma members_fold:
  assumes p: "p < length ts" and cls: "type_pt (ts ! p) = PT_Class"
  shows "n \<le> length (members (ts ! p)) \<Longrightarrow>
     length (fold (resolveMember ctx p) [0 ..< n] ts) = length ts
     \<and> (\<forall>p'. p' \<noteq> p \<longrightarrow> fold (resolveMember ctx p) [0 ..< n] ts ! p' = ts ! p')
     \<and> base_fields (fold (resolveMember ctx p) [0 ..< n] ts ! p) = base_fields (ts ! p)
     \<and> map fst (members (fold (resolveMember ctx p) [0 ..< n] ts ! p)) = map fst (members (ts ! p))
     \<and> (\<forall>j < n. \<exists>ts0. map base_fields ts0 = map base_fields ts
            \<and> snd (members (fold (resolveMember ctx p) [0 ..< n] ts ! p) ! j)
                = ctx_toPropertyValue_ev ctx ts0 (member_exportValue (snd (members (ts ! p) ! j))))
     \<and> (\<forall>j. n \<le> j \<longrightarrow> members (fold (resolveMember ctx p) [0 ..< n] ts ! p) ! j = members (ts ! p) ! j)"
proof (induction n)
  case 0
  show ?case by simp
next
  case (Suc n)
  let ?ts1 = "fold (resolveMember ctx p) [0 ..< n] ts"
  let ?ts2 = "resolveMember ctx p n ?ts1"
  let ?m0 = "members (ts ! p)" and ?m1 = "members (?ts1 ! p)"
  from Suc.prems have n: "n < length ?m0" by simp
  with Suc.IH have
    len: "length ?ts1 = length ts"
    and others: "\<forall>p'. p' \<noteq> p \<longrightarrow> ?ts1 ! p' = ts ! p'"
    and fields: "base_fields (?ts1 ! p) = base_fields (ts ! p)"
    and keys: "map fst ?m1 = map fst ?m0"
    and resolved: "\<forall>j < n. \<exists>ts0. map base_fields ts0 = map base_fields ts
            \<and> snd (?m1 ! j) = ctx_toPropertyValue_ev ctx ts0 (member_exportValue (snd (?m0 ! j)))"
    and raw: "\<forall>j. n \<le> j \<longrightarrow> ?m1 ! j = ?m0 ! j"
    by simp_all
  have fold_Suc: "fold (resolveMember ctx p) [0 ..< Suc n] ts = ?ts2" by simp
  from len p have p1: "p < length ?ts1" by simp
  from fields cls have cls1: "type_pt (?ts1 ! p) = PT_Class" by (simp add: base_fields_def)
  note facts = resolveMember_facts [OF p1 cls1, where ctx = ctx and j = n]
  from len others fields have sig1: "map base_fields ?ts1 = map base_fields ts" by (rule same_fields)
  from keys have len_m: "length ?m1 = length ?m0" by (metis length_map)
  have m2: "members (?ts2 ! p)
       = ?m1[n := (fst (?m1 ! n), ctx_toPropertyValue_ev ctx ?ts1 (member_exportValue (snd (?m1 ! n))))]"
    by (rule facts(4))
  have c1: "length ?ts2 = length ts" using facts(1) len by simp
  have c2: "\<forall>p'. p' \<noteq> p \<longrightarrow> ?ts2 ! p' = ts ! p'" using facts(2) others by simp
  have c3: "base_fields (?ts2 ! p) = base_fields (ts ! p)" using facts(3) fields by simp
  have "map fst (members (?ts2 ! p)) = (map fst ?m1)[n := fst (?m1 ! n)]"
    by (simp add: m2 map_update)
  also have "\<dots> = (map fst ?m1)[n := map fst ?m1 ! n]" using n len_m by simp
  also have "\<dots> = map fst ?m1" by (rule list_update_id)
  finally have c4: "map fst (members (?ts2 ! p)) = map fst ?m0" using keys by simp
  have c5: "\<forall>j < Suc n. \<exists>ts0. map base_fields ts0 = map base_fields ts
            \<and> snd (members (?ts2 ! p) ! j)
                = ctx_toPropertyValue_ev ctx ts0 (member_exportValue (snd (?m0 ! j)))"
  proof (intro allI impI)
    fix j assume "j < Suc n"
    then consider "j < n" | "j = n" by linarith
    then show "\<exists>ts0. map base_fields ts0 = map base_fields ts
            \<and> snd (members (?ts2 ! p) ! j)
                = ctx_toPropertyValue_ev ctx ts0 (member_exportValue (snd (?m0 ! j)))"
    proof cases
      case 1
      then have "members (?ts2 ! p) ! j = ?m1 ! j" by (simp add: m2)
      with resolved 1 show ?thesis by simp
    next
      case 2
      from raw have "?m1 ! n = ?m0 ! n" by simp
      with n len_m have "snd (members (?ts2 ! p) ! n)
          = ctx_toPropertyValue_ev ctx ?ts1 (member_exportValue (snd (?m0 ! n)))"
        by (simp add: m2)
      with sig1 2 show ?thesis by blast
    qed
  qed
  have c6: "\<forall>j. Suc n \<le> j \<longrightarrow> members (?ts2 ! p) ! j = ?m0 ! j"
    using raw by (simp add: m2)
  from c1 c2 c3 c4 c5 c6 show ?case by (simp only: fold_Suc)
qed

lemma resolveDependencies_facts:
  assumes p: "p < length ts"
  shows "length (resolveDependencies ctx ts p) = length ts
     \<and> (\<forall>p'. p' \<noteq> p \<longrightarrow> resolveDependencies ctx ts p ! p' = ts ! p')
     \<and> map base_fields (resolveDependencies ctx ts p) = map base_fields ts
     \<and> resolved_against ctx ts (ts ! p) (resolveDependencies ctx ts p ! p)"
proof (cases "type_pt (ts ! p) = PT_Class")
  case False
  then have "resolveDependencies ctx ts p = ts"
    by (cases "type_pt (ts ! p)") (simp_all add: resolveDependencies_def)
  with False show ?thesis by (simp add: resolved_against_def)
next
  case True
  let ?ts' = "fold (resolveMember ctx p) [0 ..< length (members (ts ! p))] ts"
  from True have eq: "resolveDependencies ctx ts p = ?ts'" by (simp add: resolveDependencies_def)
  from members_fold [OF p True, of "length (members (ts ! p))" ctx] have
    len: "length ?ts' = length ts"
    and others: "\<forall>p'. p' \<noteq> p \<longrightarrow> ?ts' ! p' = ts ! p'"
    and fields: "base_fields (?ts' ! p) = base_fields (ts ! p)"
    and keys: "map fst (members (?ts' ! p)) = map fst (members (ts ! p))"
    and resolved: "\<forall>j < length (members (ts ! p)). \<exists>ts0. map base_fields ts0 = map base_fields ts
            \<and> snd (members (?ts' ! p) ! j)
                = ctx_toPropertyValue_ev ctx ts0 (member_exportValue (snd (members (ts ! p) ! j)))"
    by simp_all
  from len others fields have "map base_fields ?ts' = map base_fields ts" by (rule same_fields)
  with len others fields keys resolved True show ?thesis
    by (simp only: eq resolved_against_def) blast
qed

lemma resolved_against_fields:
  "map base_fields parsed' = map base_fields parsed
   \<Longrightarrow> resolved_against ctx parsed' raw pt \<Longrightarrow> resolved_against ctx parsed raw pt"
  by (simp add: resolved_against_def)

lemma types_fold:
  "n \<le> length ts \<Longrightarrow>
     length (fold (\<lambda>p mTypes. resolveDependencies ctx mTypes p) [0 ..< n] ts) = length ts
     \<and> map base_fields (fold (\<lambda>p mTypes. resolveDependencies ctx mTypes p) [0 ..< n] ts)
         = map base_fields ts
     \<and> (\<forall>p. n \<le> p \<longrightarrow> fold (\<lambda>p mTypes. resolveDependencies ctx mTypes p) [0 ..< n] ts ! p = ts ! p)
     \<and> (\<forall>p < n. resolved_against ctx ts (ts ! p)
            (fold (\<lambda>p mTypes. resolveDependencies ctx mTypes p) [0 ..< n] ts ! p))"
proof (induction n)
  case 0 show ?case by simp
next
  case (Suc n)
  let ?ts1 = "fold (\<lambda>p mTypes. resolveDependencies ctx mTypes p) [0 ..< n] ts"
  let ?ts2 = "resolveDependencies ctx ?ts1 n"
  from Suc.prems Suc.IH have
    len: "length ?ts1 = length ts"
    and sig1: "map base_fields ?ts1 = map base_fields ts"
    and raw: "\<forall>p. n \<le> p \<longrightarrow> ?ts1 ! p = ts ! p"
    and earlier: "\<forall>p < n. resolved_against ctx ts (ts ! p) (?ts1 ! p)"
    by simp_all
  have fold_Suc: "fold (\<lambda>p mTypes. resolveDependencies ctx mTypes p) [0 ..< Suc n] ts = ?ts2" by simp
  from Suc.prems len have n1: "n < length ?ts1" by simp
  from resolveDependencies_facts [OF n1, of ctx] have
    len2: "length ?ts2 = length ?ts1"
    and others: "\<forall>p'. p' \<noteq> n \<longrightarrow> ?ts2 ! p' = ?ts1 ! p'"
    and sig2: "map base_fields ?ts2 = map base_fields ?ts1"
    and here: "resolved_against ctx ?ts1 (?ts1 ! n) (?ts2 ! n)"
    by simp_all
  have c1: "length ?ts2 = length ts" using len len2 by simp
  have c2: "map base_fields ?ts2 = map base_fields ts" using sig1 sig2 by simp
  have c3: "\<forall>p. Suc n \<le> p \<longrightarrow> ?ts2 ! p = ts ! p" using others raw by simp
  have c4: "\<forall>p < Suc n. resolved_against ctx ts (ts ! p) (?ts2 ! p)"
  proof (intro allI impI)
    fix p assume "p < Suc n"
    then consider "p < n" | "p = n" by linarith
    then show "resolved_against ctx ts (ts ! p) (?ts2 ! p)"
    proof cases
      case 1
      with others have "?ts2 ! p = ?ts1 ! p" by simp
      with earlier 1 show ?thesis by simp
    next
      case 2
      from raw have "?ts1 ! n = ts ! n" by simp
      with here have "resolved_against ctx ?ts1 (ts ! n) (?ts2 ! n)" by simp
      with sig1 2 show ?thesis by (simp add: resolved_against_def)
    qed
  qed
  from c1 c2 c3 c4 show ?case by (simp only: fold_Suc)
qed

lemma count_kinds: "count ts PT_Enum + count ts PT_Class = length ts \<and> count ts PT_Invalid = 0"
proof (induction ts)
  case Nil show ?case by (simp add: count_def)
next
  case (Cons t ts)
  then show ?case by (cases t) (simp_all add: count_def)
qed

lemma find_by_fields:
  assumes "map base_fields ts = map (record_fields q) valid" and "r \<in> set valid"
  shows "\<exists>p p'. findTypeById ts (fst (record_fields q r)) = Some p \<and> p < length ts
            \<and> id_pt (ts ! p) = fst (record_fields q r)
            \<and> findTypeByName ts (fst (snd (record_fields q r))) = Some p' \<and> p' < length ts
            \<and> name (ts ! p') = fst (snd (record_fields q r))"
proof -
  from assms(2) have "record_fields q r \<in> set (map base_fields ts)" by (simp add: assms(1))
  then obtain t where t: "t \<in> set ts" and f: "base_fields t = record_fields q r" by auto
  from f have "id_pt t = fst (record_fields q r)" and "name t = fst (snd (record_fields q r))"
    by (simp_all add: base_fields_def flip: f)
  with t have "\<exists>x\<in>set ts. id_pt x = fst (record_fields q r)"
    and "\<exists>x\<in>set ts. name x = fst (snd (record_fields q r))" by auto
  then obtain p p' where p: "findTypeById ts (fst (record_fields q r)) = Some p"
    and p': "findTypeByName ts (fst (snd (record_fields q r))) = Some p'"
    unfolding findTypeById_def findTypeByName_def
    using find_if_ex [of ts "\<lambda>t. id_pt t = fst (record_fields q r)"]
      find_if_ex [of ts "\<lambda>t. name t = fst (snd (record_fields q r))"] by blast
  from find_if_Some [OF p [unfolded findTypeById_def]] find_if_Some [OF p' [unfolded findTypeByName_def]]
    p p' show ?thesis by blast
qed

lemma find_if_first:
  "k < length xs \<Longrightarrow> P (xs ! k) \<Longrightarrow> \<forall>j<k. \<not> P (xs ! j) \<Longrightarrow> find_if P xs = Some k"
proof (induction xs arbitrary: k)
  case Nil then show ?case by simp
next
  case (Cons x xs)
  show ?case
  proof (cases k)
    case 0 with Cons.prems show ?thesis by simp
  next
    case (Suc k')
    from Cons.prems Suc have x: "\<not> P x" by auto
    from Cons.prems Suc have "find_if P xs = Some k'"
      by (intro Cons.IH) auto
    with x Suc show ?thesis by simp
  qed
qed

lemma find_own:
  assumes f: "map base_fields ts = map (record_fields q) valid" and k: "k < length valid"
  shows "(\<forall>j<k. fst (record_fields q (valid ! j)) \<noteq> fst (record_fields q (valid ! k)))
           \<longrightarrow> findTypeById ts (fst (record_fields q (valid ! k))) = Some k"
    and "(\<forall>j<k. fst (snd (record_fields q (valid ! j))) \<noteq> fst (snd (record_fields q (valid ! k))))
           \<longrightarrow> findTypeByName ts (fst (snd (record_fields q (valid ! k)))) = Some k"
proof -
  from f have len: "length ts = length valid" by (metis length_map)
  have nth: "base_fields (ts ! j) = record_fields q (valid ! j)" if "j < length valid" for j
    using that f len by (metis nth_map)
  then have ids: "id_pt (ts ! j) = fst (record_fields q (valid ! j))"
    and names: "name (ts ! j) = fst (snd (record_fields q (valid ! j)))" if "j < length valid" for j
    using that by (simp_all add: base_fields_def flip: nth)
  show "(\<forall>j<k. fst (record_fields q (valid ! j)) \<noteq> fst (record_fields q (valid ! k)))
           \<longrightarrow> findTypeById ts (fst (record_fields q (valid ! k))) = Some k"
    unfolding findTypeById_def using k len ids by (intro impI find_if_first) auto
  show "(\<forall>j<k. fst (snd (record_fields q (valid ! j))) \<noteq> fst (snd (record_fields q (valid ! k))))
           \<longrightarrow> findTypeByName ts (fst (snd (record_fields q (valid ! k)))) = Some k"
    unfolding findTypeByName_def using k len names by (intro impI find_if_first) auto
qed

text \<open>
  C3 fails where two accepted records share an id or a name: of the records enum N with
  id 1, class N with id 2 and class M with id 1, all three are in the registry, and
  findTypeByName finds the enum for the name N, never the class N, and findTypeById finds
  the enum for the id 1, never the class M.
\<close>

theorem loadFrom_registry_counterexample:
  "fst (loadFrom lookup_context (\<lambda>s. 0)
     [VMap [(''id'', VInt 1), (''name'', VString ''N''), (''type'', VString ''enum'')],
      VMap [(''id'', VInt 2), (''name'', VString ''N''), (''type'', VString ''class'')],
      VMap [(''id'', VInt 1), (''name'', VString ''M''), (''type'', VString ''class'')]]
     ''p'' ([], 0))
   = [EnumPropertyType 1 ''N'' StringValue [] False, ClassPropertyType 2 ''N'' [],
      ClassPropertyType 1 ''M'' []]
   \<and> findTypeByName [EnumPropertyType 1 ''N'' StringValue [] False, ClassPropertyType 2 ''N'' [],
        ClassPropertyType 1 ''M'' []] ''N'' = Some 0
   \<and> findTypeById [EnumPropertyType 1 ''N'' StringValue [] False, ClassPropertyType 2 ''N'' [],
        ClassPropertyType 1 ''M'' []] 1 = Some 0"
  by (simp add: loadFrom_def clear_def load_step_def add_def
      createFromVariant_cases value_of_def value_or_def typeFromString_def fromVariant_def
      ClassPropertyType_fromVariant_def EnumPropertyType_fromVariant_def resolveDependencies_def
      findTypeByName_def findTypeById_def upt_rec increment_def)

text \<open>
  C3, amended. loadFrom forgets the types owned before. The factory accepts a record exactly when
  its type string is not unknown. The registry loadFrom leaves holds, in input order, one
  type for each accepted record, with the id, name and kind of the record, so its count is
  the number of those records. In every registry with
  these ids and names, the loaded one and each one the host is handed, findTypeById and
  findTypeByName find a type with the id and the name of each accepted record, and find
  the record's own position unless an earlier record has the same id or name. Every member
  of every class is resolved by the host at a registry that already holds all the accepted
  types, whatever the order of the records.
\<close>

theorem loadFrom_registry:
  "let parsed = fst (fold (load_step q) list ([], nextId));
       loaded = fst (loadFrom new_context q list path (mTypes, nextId));
       valid = filter (\<lambda>r. snd (snd (record_fields q r)) \<noteq> PT_Invalid) list
   in loadFrom new_context q list path (mTypes, nextId) = loadFrom new_context q list path ([], nextId)
      \<and> (\<forall>r k. fst (createFromVariant q (toMap r) k) = None
                 \<longleftrightarrow> snd (snd (record_fields q r)) = PT_Invalid)
      \<and> map base_fields loaded = map (record_fields q) valid
      \<and> count loaded PT_Enum + count loaded PT_Class = length valid
      \<and> count loaded PT_Invalid = 0
      \<and> (\<forall>ts. map base_fields ts = map (record_fields q) valid \<longrightarrow>
            (\<forall>r \<in> set valid. \<exists>p p'.
               findTypeById ts (fst (record_fields q r)) = Some p \<and> p < length ts
               \<and> id_pt (ts ! p) = fst (record_fields q r)
               \<and> findTypeByName ts (fst (snd (record_fields q r))) = Some p' \<and> p' < length ts
               \<and> name (ts ! p') = fst (snd (record_fields q r)))
            \<and> (\<forall>k < length valid.
                 ((\<forall>j<k. fst (record_fields q (valid ! j)) \<noteq> fst (record_fields q (valid ! k)))
                    \<longrightarrow> findTypeById ts (fst (record_fields q (valid ! k))) = Some k)
                 \<and> ((\<forall>j<k. fst (snd (record_fields q (valid ! j))) \<noteq> fst (snd (record_fields q (valid ! k))))
                    \<longrightarrow> findTypeByName ts (fst (snd (record_fields q (valid ! k)))) = Some k)))
      \<and> map base_fields parsed = map (record_fields q) valid
      \<and> (\<forall>p < length loaded. resolved_against (new_context path) parsed (parsed ! p) (loaded ! p))"
proof -
  let ?parsed = "fst (fold (load_step q) list ([], nextId))"
  let ?loaded = "fold (\<lambda>p ts. resolveDependencies (new_context path) ts p) [0 ..< length ?parsed] ?parsed"
  let ?valid = "filter (\<lambda>r. snd (snd (record_fields q r)) \<noteq> PT_Invalid) list"
  have loaded: "fst (loadFrom new_context q list path (ts0, nextId)) = ?loaded" for ts0
    by (simp add: loadFrom_def clear_def Let_def)
  have cleared: "loadFrom new_context q list path (mTypes, nextId)
                   = loadFrom new_context q list path ([], nextId)"
    by (simp add: loadFrom_def clear_def)
  have parsed: "map base_fields ?parsed = map (record_fields q) ?valid"
    using load_fold_fields [of q list "([], nextId)"] by simp
  from types_fold [of "length ?parsed" ?parsed "new_context path"] have
    len: "length ?loaded = length ?parsed"
    and fields: "map base_fields ?loaded = map base_fields ?parsed"
    and resolved: "\<forall>p < length ?parsed. resolved_against (new_context path) ?parsed (?parsed ! p) (?loaded ! p)"
    by simp_all
  from fields parsed have f: "map base_fields ?loaded = map (record_fields q) ?valid" by simp
  then have n: "length ?loaded = length ?valid" by (metis length_map)
  from count_kinds [of ?loaded] n have
    c: "count ?loaded PT_Enum + count ?loaded PT_Class = length ?valid \<and> count ?loaded PT_Invalid = 0"
    by simp
  have find: "\<forall>ts. map base_fields ts = map (record_fields q) ?valid \<longrightarrow>
            (\<forall>r \<in> set ?valid. \<exists>p p'.
               findTypeById ts (fst (record_fields q r)) = Some p \<and> p < length ts
               \<and> id_pt (ts ! p) = fst (record_fields q r)
               \<and> findTypeByName ts (fst (snd (record_fields q r))) = Some p' \<and> p' < length ts
               \<and> name (ts ! p') = fst (snd (record_fields q r)))
            \<and> (\<forall>k < length ?valid.
                 ((\<forall>j<k. fst (record_fields q (?valid ! j)) \<noteq> fst (record_fields q (?valid ! k)))
                    \<longrightarrow> findTypeById ts (fst (record_fields q (?valid ! k))) = Some k)
                 \<and> ((\<forall>j<k. fst (snd (record_fields q (?valid ! j))) \<noteq> fst (snd (record_fields q (?valid ! k))))
                    \<longrightarrow> findTypeByName ts (fst (snd (record_fields q (?valid ! k)))) = Some k))"
    using find_by_fields find_own by (intro allI impI conjI ballI) blast+
  from resolved len have
    r: "\<forall>p < length ?loaded. resolved_against (new_context path) ?parsed (?parsed ! p) (?loaded ! p)"
    by simp
  have accepts: "\<forall>r k. fst (createFromVariant q (toMap r) k) = None
                 \<longleftrightarrow> snd (snd (record_fields q r)) = PT_Invalid"
    by (simp add: createFromVariant_None record_fields_def)
  show ?thesis
    unfolding Let_def loaded
    using cleared accepts f c find parsed r by blast
qed

theorem loadFrom_registry_witness:
  "loadFrom lookup_context (\<lambda>s. 0)
     [VMap [(''id'', VInt 1),
            (''members'', VList [VMap [(''name'', VString ''b''), (''propertyType'', VString ''B''),
                                       (''type'', VString ''class''), (''value'', VMap [])]]),
            (''name'', VString ''A''), (''type'', VString ''class'')],
      VMap [(''id'', VInt 5), (''name'', VString ''J''), (''type'', VString ''tileset'')],
      VMap [(''id'', VInt 2), (''name'', VString ''B''), (''type'', VString ''class'')]]
     ''p'' ([EnumPropertyType 9 ''Old'' StringValue [] False], 0)
   = ([ClassPropertyType 1 ''A'' [(''b'', VPropertyValue (VMap []) 2)], ClassPropertyType 2 ''B'' []], 2)
   \<and> count [ClassPropertyType 1 ''A'' [(''b'', VPropertyValue (VMap []) 2)], ClassPropertyType 2 ''B'' []]
         PT_Enum
       + count [ClassPropertyType 1 ''A'' [(''b'', VPropertyValue (VMap []) 2)], ClassPropertyType 2 ''B'' []]
         PT_Class = 2"
proof -
  let ?list = "[VMap [(''id'', VInt 1),
            (''members'', VList [VMap [(''name'', VString ''b''), (''propertyType'', VString ''B''),
                                       (''type'', VString ''class''), (''value'', VMap [])]]),
            (''name'', VString ''A''), (''type'', VString ''class'')],
      VMap [(''id'', VInt 5), (''name'', VString ''J''), (''type'', VString ''tileset'')],
      VMap [(''id'', VInt 2), (''name'', VString ''B''), (''type'', VString ''class'')]]"
  let ?old = "([EnumPropertyType 9 ''Old'' StringValue [] False], 0 :: int)"
  have eval: "loadFrom lookup_context (\<lambda>s. 0) ?list ''p'' ?old
     = ([ClassPropertyType 1 ''A'' [(''b'', VPropertyValue (VMap []) 2)], ClassPropertyType 2 ''B'' []], 2)"
    by (simp add: loadFrom_def clear_def load_step_def add_def
      createFromVariant_cases value_of_def typeFromString_def fromVariant_def
      ClassPropertyType_fromVariant_def resolveDependencies_def resolveMember_def
      member_exportValue_def lookup_context_def findTypeByName_def wrap_def upt_rec increment_def)
  have valid: "length (filter (\<lambda>r. snd (snd (record_fields (\<lambda>s. 0) r)) \<noteq> PT_Invalid) ?list) = 2"
    by (simp add: record_fields_def value_of_def typeFromString_def)
  from loadFrom_registry [of "\<lambda>s. 0" ?list 0 lookup_context "''p''" "[EnumPropertyType 9 ''Old'' StringValue [] False]"]
  have "count (fst (loadFrom lookup_context (\<lambda>s. 0) ?list ''p'' ?old)) PT_Enum
        + count (fst (loadFrom lookup_context (\<lambda>s. 0) ?list ''p'' ?old)) PT_Class
        = length (filter (\<lambda>r. snd (snd (record_fields (\<lambda>s. 0) r)) \<noteq> PT_Invalid) ?list)"
    unfolding Let_def by blast
  with eval valid show ?thesis by simp
qed

subsection \<open>Class membership\<close>

lemma canAdd_loop_not_True:
  assumes "member \<in> set ms" and "userType member = propertyValueId"
    and "PropertyValue_type mTypes member = Some a" and "recurse a \<noteq> Some True"
  shows "canAdd_loop recurse mTypes ms \<noteq> Some True"
  using assms(1)
proof (induction ms)
  case Nil then show ?case by simp
next
  case (Cons m ms)
  show ?case
  proof (cases "m = member")
    case True
    with assms(2,3,4) show ?thesis by (auto split: option.splits)
  next
    case False
    with Cons have "canAdd_loop recurse mTypes ms \<noteq> Some True" by simp
    then show ?thesis by (auto split: option.splits)
  qed
qed

lemma canAdd_loop_total:
  assumes "\<And>member a. member \<in> set ms \<Longrightarrow> userType member = propertyValueId
             \<Longrightarrow> PropertyValue_type mTypes member = Some a \<Longrightarrow> \<exists>r. recurse a = Some r"
  shows "\<exists>r. canAdd_loop recurse mTypes ms = Some r"
  using assms
proof (induction ms)
  case Nil show ?case by auto
next
  case (Cons m ms)
  have rest: "\<exists>r. canAdd_loop recurse mTypes ms = Some r"
  proof (rule Cons.IH)
    fix member a
    assume "member \<in> set ms" and "userType member = propertyValueId"
      and "PropertyValue_type mTypes member = Some a"
    then show "\<exists>r. recurse a = Some r" using Cons.prems [of member a] by simp
  qed
  show ?case
  proof (cases "userType m = propertyValueId \<and> PropertyValue_type mTypes m \<noteq> None")
    case False
    with rest show ?thesis by (auto split: option.splits)
  next
    case True
    then obtain a where a: "PropertyValue_type mTypes m = Some a" by blast
    with True Cons.prems [of m a] obtain r where "recurse a = Some r" by auto
    with True a rest show ?thesis by auto
  qed
qed

lemma canAdd_not_True:
  "(has_member_of mTypes)\<^sup>*\<^sup>* b this \<Longrightarrow> canAddMemberOfType n mTypes this b \<noteq> Some True"
proof (induction n arbitrary: b)
  case 0
  show ?case
  proof (cases "b = this")
    case True then show ?thesis by (simp add: canAdd_body_def)
  next
    case False
    with "0.prems" obtain c where bc: "has_member_of mTypes b c"
      by (auto elim: converse_rtranclpE)
    then obtain member where "member \<in> set (map snd (members (mTypes ! b)))"
      and "userType member = propertyValueId" and "PropertyValue_type mTypes member = Some c"
      by (auto simp: has_member_of_def)
    then have "canAdd_loop (\<lambda>_. None) mTypes (map snd (members (mTypes ! b))) \<noteq> Some True"
      by (rule canAdd_loop_not_True) simp
    with bc False show ?thesis by (simp add: canAdd_body_def has_member_of_def)
  qed
next
  case (Suc n)
  show ?case
  proof (cases "b = this")
    case True then show ?thesis by (simp add: canAdd_body_def)
  next
    case False
    with Suc.prems obtain c where bc: "has_member_of mTypes b c"
      and c: "(has_member_of mTypes)\<^sup>*\<^sup>* c this"
      by (auto elim: converse_rtranclpE)
    from bc obtain member where "member \<in> set (map snd (members (mTypes ! b)))"
      and "userType member = propertyValueId" and "PropertyValue_type mTypes member = Some c"
      by (auto simp: has_member_of_def)
    moreover from c have "canAddMemberOfType n mTypes this c \<noteq> Some True" by (rule Suc.IH)
    ultimately have "canAdd_loop (canAddMemberOfType n mTypes this) mTypes
                       (map snd (members (mTypes ! b))) \<noteq> Some True"
      by (rule canAdd_loop_not_True)
    with bc False show ?thesis by (simp add: canAdd_body_def has_member_of_def)
  qed
qed

lemma PropertyValue_type_valid: "PropertyValue_type mTypes member = Some a \<Longrightarrow> a < length mTypes"
  by (auto simp: PropertyValue_type_def findTypeById_def dest: find_if_Some)

lemma canAdd_total:
  assumes rank: "\<And>x y. has_member_of mTypes x y \<Longrightarrow> rank y < (rank x :: nat)"
  shows "b < length mTypes \<Longrightarrow> rank b \<le> n \<Longrightarrow> \<exists>r. canAddMemberOfType n mTypes this b = Some r"
proof (induction n arbitrary: b)
  case 0
  have "\<exists>r. canAdd_loop (\<lambda>_. None) mTypes (map snd (members (mTypes ! b))) = Some r"
    if "type_pt (mTypes ! b) = PT_Class"
  proof (rule canAdd_loop_total)
    fix member a
    assume "member \<in> set (map snd (members (mTypes ! b)))" and "userType member = propertyValueId"
      and "PropertyValue_type mTypes member = Some a"
    with that "0.prems"(1) have "has_member_of mTypes b a" by (auto simp: has_member_of_def)
    then have "rank a < rank b" by (rule rank)
    with "0.prems"(2) show "\<exists>r. None = Some r" by simp
  qed
  with "0.prems"(1) show ?case by (auto simp: canAdd_body_def)
next
  case (Suc n)
  have "\<exists>r. canAdd_loop (canAddMemberOfType n mTypes this) mTypes (map snd (members (mTypes ! b))) = Some r"
    if "type_pt (mTypes ! b) = PT_Class"
  proof (rule canAdd_loop_total)
    fix member a
    assume "member \<in> set (map snd (members (mTypes ! b)))" and "userType member = propertyValueId"
      and a: "PropertyValue_type mTypes member = Some a"
    with that Suc.prems(1) have "has_member_of mTypes b a" by (auto simp: has_member_of_def)
    then have "rank a < rank b" by (rule rank)
    with Suc.prems(2) have "rank a \<le> n" by simp
    moreover from a have "a < length mTypes" by (rule PropertyValue_type_valid)
    ultimately show "\<exists>r. canAddMemberOfType n mTypes this a = Some r" by (rule Suc.IH [rotated])
  qed
  with Suc.prems(1) show ?case by (auto simp: canAdd_body_def)
qed

lemma cyclic_types_facts:
  "length cyclic_types = 4"
  "type_pt (cyclic_types ! 1) = PT_Class"
  "type_pt (cyclic_types ! 2) = PT_Class"
  "type_pt (cyclic_types ! 3) = PT_Class"
  "map snd (members (cyclic_types ! 1)) = [VPropertyValue (VMap []) 3, VPropertyValue (VMap []) 1]"
  "map snd (members (cyclic_types ! 2)) = [VPropertyValue (VMap []) 2]"
  "map snd (members (cyclic_types ! 3)) = [VPropertyValue (VMap []) 2]"
  "PropertyValue_type cyclic_types (VPropertyValue (VMap []) 3) = Some 2"
  "PropertyValue_type cyclic_types (VPropertyValue (VMap []) 2) = Some 1"
  "PropertyValue_type cyclic_types (VPropertyValue (VMap []) 1) = Some 0"
  by (simp_all add: cyclic_types_def PropertyValue_type_def findTypeById_def)

lemma canAdd_cyclic:
  "canAddMemberOfType n cyclic_types 0 1 = None \<and> canAddMemberOfType n cyclic_types 0 2 = None"
proof (induction n)
  case 0
  show ?case by (simp add: canAdd_body_def cyclic_types_facts del: One_nat_def)
next
  case (Suc n)
  then show ?case by (simp add: canAdd_body_def cyclic_types_facts del: One_nat_def)
qed

text \<open>
  C5 fails where classes contain each other: in the registry of T, A, C and B, the class B
  has a member typed as A, and A has a member typed as T, the class under test; but A also
  has the member c typed as C, which comes first, and C has a member typed as A, so the
  recursion goes from A to C and back without end, and canAddMemberOfType gives no answer
  at any depth bound.
\<close>

theorem canAddMemberOfType_cycle_counterexample:
  "has_member_of cyclic_types 3 1 \<and> has_member_of cyclic_types 1 0
   \<and> (\<forall>n. canAddMemberOfType n cyclic_types 0 3 = None)"
proof -
  have "canAddMemberOfType n cyclic_types 0 3 = None" for n
  proof (cases n)
    case 0
    then show ?thesis by (simp add: canAdd_body_def cyclic_types_facts del: One_nat_def)
  next
    case (Suc k)
    from canAdd_cyclic [of k] have "canAddMemberOfType k cyclic_types 0 1 = None" by simp
    with Suc show ?thesis by (simp add: canAdd_body_def cyclic_types_facts del: One_nat_def)
  qed
  moreover have "has_member_of cyclic_types 3 1" "has_member_of cyclic_types 1 0"
    by (simp_all add: has_member_of_def cyclic_types_facts del: One_nat_def)
  ultimately show ?thesis by blast
qed

text \<open>
  C5, amended. canAddMemberOfType, asked of a class, answers false for the class itself, and true
  for every candidate that is not a class. For a class \<open>b\<close> with a member typed as \<open>a\<close>,
  where \<open>a\<close> is, or through its members reaches, the class under test, it never answers
  true; it answers false whenever the recursion returns, which it does at every depth bound
  from \<open>rank b\<close> on when memberships go down an order \<open>rank\<close> (no class of the
  registry contains itself, the invariant of the data model).
\<close>

theorem canAddMemberOfType_cycle:
  "canAddMemberOfType n mTypes this this = Some False
   \<and> (this < length mTypes \<and> type_pt (mTypes ! this) = PT_Class
        \<and> candidate < length mTypes \<and> type_pt (mTypes ! candidate) \<noteq> PT_Class
        \<longrightarrow> canAddMemberOfType n mTypes this candidate = Some True)
   \<and> (has_member_of mTypes b a \<and> (has_member_of mTypes)\<^sup>*\<^sup>* a this
        \<longrightarrow> canAddMemberOfType n mTypes this b \<noteq> Some True
            \<and> ((\<forall>x y. has_member_of mTypes x y \<longrightarrow> rank y < (rank x :: nat)) \<and> rank b \<le> n
                 \<longrightarrow> canAddMemberOfType n mTypes this b = Some False))"
proof -
  have self: "canAddMemberOfType n mTypes this this = Some False"
    by (cases n) (simp_all add: canAdd_body_def)
  have other: "canAddMemberOfType n mTypes this candidate = Some True"
    if "type_pt (mTypes ! this) = PT_Class"
      and "candidate < length mTypes" and "type_pt (mTypes ! candidate) \<noteq> PT_Class"
  proof -
    from that have "candidate \<noteq> this" by auto
    with that show ?thesis by (cases n) (simp_all add: canAdd_body_def)
  qed
  have cyc: "canAddMemberOfType n mTypes this b \<noteq> Some True
            \<and> ((\<forall>x y. has_member_of mTypes x y \<longrightarrow> rank y < rank x) \<and> rank b \<le> n
                 \<longrightarrow> canAddMemberOfType n mTypes this b = Some False)"
    if ba: "has_member_of mTypes b a" and at: "(has_member_of mTypes)\<^sup>*\<^sup>* a this"
  proof -
    from ba at have "(has_member_of mTypes)\<^sup>*\<^sup>* b this" by (rule converse_rtranclp_into_rtranclp)
    then have nt: "canAddMemberOfType n mTypes this b \<noteq> Some True" by (rule canAdd_not_True)
    have "canAddMemberOfType n mTypes this b = Some False"
      if r: "\<forall>x y. has_member_of mTypes x y \<longrightarrow> rank y < rank x" and le: "rank b \<le> n"
    proof -
      from ba have "b < length mTypes" by (simp add: has_member_of_def)
      with r le obtain res where "canAddMemberOfType n mTypes this b = Some res"
        using canAdd_total [of mTypes rank b n this] by blast
      with nt show ?thesis by (cases res) simp_all
    qed
    with nt show ?thesis by blast
  qed
  from self other cyc show ?thesis by blast
qed

theorem canAddMemberOfType_cycle_witness:
  "canAddMemberOfType 2
     [ClassPropertyType 1 ''T'' [], ClassPropertyType 2 ''A'' [(''t'', VPropertyValue (VMap []) 1)],
      ClassPropertyType 3 ''B'' [(''a'', VPropertyValue (VMap []) 2)],
      EnumPropertyType 4 ''E'' StringValue [''x''] False] 0 0 = Some False
   \<and> canAddMemberOfType 2
     [ClassPropertyType 1 ''T'' [], ClassPropertyType 2 ''A'' [(''t'', VPropertyValue (VMap []) 1)],
      ClassPropertyType 3 ''B'' [(''a'', VPropertyValue (VMap []) 2)],
      EnumPropertyType 4 ''E'' StringValue [''x''] False] 0 3 = Some True
   \<and> canAddMemberOfType 2
     [ClassPropertyType 1 ''T'' [], ClassPropertyType 2 ''A'' [(''t'', VPropertyValue (VMap []) 1)],
      ClassPropertyType 3 ''B'' [(''a'', VPropertyValue (VMap []) 2)],
      EnumPropertyType 4 ''E'' StringValue [''x''] False] 0 2 = Some False"
proof -
  let ?ts = "[ClassPropertyType 1 ''T'' [], ClassPropertyType 2 ''A'' [(''t'', VPropertyValue (VMap []) 1)],
      ClassPropertyType 3 ''B'' [(''a'', VPropertyValue (VMap []) 2)],
      EnumPropertyType 4 ''E'' StringValue [''x''] False]"
  have ba: "has_member_of ?ts 2 1"
    by (simp add: has_member_of_def PropertyValue_type_def findTypeById_def)
  have "has_member_of ?ts 1 0"
    by (simp add: has_member_of_def PropertyValue_type_def findTypeById_def)
  then have at: "(has_member_of ?ts)\<^sup>*\<^sup>* 1 0" by (rule r_into_rtranclp)
  have rank: "\<forall>x y. has_member_of ?ts x y \<longrightarrow> (\<lambda>i. i) y < (\<lambda>i. i) x"
  proof (intro allI impI)
    fix x y assume h: "has_member_of ?ts x y"
    then have "x < 4" by (simp add: has_member_of_def)
    then consider "x = 0" | "x = 1" | "x = 2" | "x = 3" by linarith
    then show "(\<lambda>i. i) y < (\<lambda>i. i) x"
      using h by cases (auto simp: has_member_of_def PropertyValue_type_def findTypeById_def)
  qed
  have enum: "(0 :: nat) < length ?ts \<and> type_pt (?ts ! 0) = PT_Class
              \<and> (3 :: nat) < length ?ts \<and> type_pt (?ts ! 3) \<noteq> PT_Class" by simp
  from canAddMemberOfType_cycle [of 2 ?ts 0 3 2 1 "\<lambda>i. i"] ba at rank enum
  show ?thesis by blast
qed

end
